theory Spec2Isabelle
  imports Main "HOL-Library.Sublist"
begin

section \<open>libzygote: the daemon child, the endpoint cleanup and the grow client\<close>

text \<open>
  The two C sources, \<^verbatim>\<open>zygote.c\<close> and \<^verbatim>\<open>grow.c\<close>, talk to the operating system only.
  The embedding keeps every system call of the code as a step on an explicit world: the
  world holds the answers that the peer and the kernel give to the calls that can go
  either way (scripts consumed call by call), the descriptor table of the process, the
  process-wide variables of \<^verbatim>\<open>zygote.c\<close>, and the trace of the calls made so far.
  Integers of the program are modelled by \<open>int\<close>; the one conversion that can wrap
  (\<^verbatim>\<open>strlen\<close> stored into an \<^verbatim>\<open>int\<close>) is written out in \<open>int32\<close>.
  Strings are C strings: the characters before the terminating NUL.
  Diagnostic output (the macro \<^verbatim>\<open>log\<close>, \<^verbatim>\<open>perror\<close>, \<^verbatim>\<open>fprintf\<close>) is left out.
  Memory is assumed to suffice (\<^verbatim>\<open>malloc\<close>, \<^verbatim>\<open>realloc\<close> and \<^verbatim>\<open>strdup\<close> succeed on every
  request of a positive size); the places where the code writes outside an allocation are
  a result of their own, \<open>Undef\<close>.
\<close>

subsection \<open>Data\<close>

type_synonym fd = int
type_synonym ofile = nat
type_synonym ptr = nat
type_synonym run_t = "int \<Rightarrow> ptr list \<Rightarrow> int \<Rightarrow> string list \<Rightarrow> int"

text \<open>What one \<^verbatim>\<open>read(fd, &num, sizeof(num))\<close> can do: return -1; return fewer than four
  bytes (zero at the end of the stream), after which \<^verbatim>\<open>num\<close> holds the given stale value;
  or deliver the integer.\<close>

datatype num_rd = NErr | NShort int | NFull int

text \<open>What one \<^verbatim>\<open>read(fd, buf, num)\<close> can do: return -1, or transfer \<open>k\<close> bytes, after
  which \<^verbatim>\<open>buf\<close>, terminated at index \<^verbatim>\<open>num\<close>, reads as the given C string. The read is
  short when \<open>k\<close> is less than \<^verbatim>\<open>num\<close>.\<close>

datatype str_rd = SErr | SRd nat string

text \<open>What one \<^verbatim>\<open>recvmsg\<close> of \<^verbatim>\<open>read_fd\<close> can do: return -1, return 0, or deliver the
  byte with or without ancillary data.\<close>

datatype ctl = NoCtl | BadLevel | BadType | Rights ofile
datatype msg_rd = MErr | MEof | MGot ctl

datatype hook = Cleanup | ReplyWithExitStatus

datatype event =
    EvRead fd
  | EvWrite fd int bool
  | EvRecvmsg fd
  | EvDup2 fd fd bool
  | EvClose fd
  | EvUnlink string
  | EvEnviron "string list"
  | EvChdir string
  | EvDlopen "string option"
  | EvDlsym
  | EvRun int "ptr list" int "string list"
  | EvDlclose
  | EvOnExit
  | EvExit int

record world =
  nums :: "num_rd list"
  strs :: "str_rd list"
  msgs :: "msg_rd list"
  wr_ok :: "bool list"
  fdtab :: "ofile option list"
  zygote_socket_fd :: int
  zygote_socket_path :: "string option"
  grow_connection_fd :: int
  exit_hooks :: "hook list"
  trace :: "event list"

text \<open>What the build and the host process fix: the version constant of \<^verbatim>\<open>zygote.h\<close>
  (the header is not among the sources, so the constant is a parameter), whether
  \<^verbatim>\<open>HAS_ON_EXIT\<close> is defined, the process id that \<^verbatim>\<open>getpid\<close> returns, the dynamic
  loader, and the indeterminate first contents of the local array \<^verbatim>\<open>fds\<close>.\<close>

record config =
  ZYGOTE_VERSION :: int
  HAS_ON_EXIT :: bool
  getpid :: int
  dlopen :: "string option \<Rightarrow> nat option"
  dlsym_run :: "nat \<Rightarrow> run_t option"
  fds_init :: "int \<times> int \<times> int"

datatype 'a step = Ok 'a | Fail | Undef

datatype outcome = Returned int | Exited int | Undefined

definition EXIT_FAILURE :: int where
  "EXIT_FAILURE = 1"

definition INT_MAX :: int where
  "INT_MAX = 2147483647"

subsection \<open>The descriptor table\<close>

definition lookup :: "ofile option list \<Rightarrow> fd \<Rightarrow> ofile option" where
  "lookup t k = (if 0 \<le> k \<and> nat k < length t then t ! nat k else None)"

definition install :: "ofile option list \<Rightarrow> nat \<Rightarrow> ofile option \<Rightarrow> ofile option list" where
  "install t k v = (t @ replicate (Suc k - length t) None)[k := v]"

fun lowest_free :: "ofile option list \<Rightarrow> nat" where
  "lowest_free [] = 0"
| "lowest_free (None # t) = 0"
| "lowest_free (Some f # t) = Suc (lowest_free t)"

subsection \<open>System calls as steps\<close>

definition emit :: "event \<Rightarrow> world \<Rightarrow> world" where
  "emit e w = w\<lparr>trace := trace w @ [e]\<rparr>"

definition bnd :: "'a step \<times> world \<Rightarrow> ('a \<Rightarrow> world \<Rightarrow> 'b step \<times> world) \<Rightarrow> 'b step \<times> world" where
  "bnd m f = (case m of (Ok x, w) \<Rightarrow> f x w | (Fail, w) \<Rightarrow> (Fail, w) | (Undef, w) \<Rightarrow> (Undef, w))"

text \<open>\<^verbatim>\<open>write(fd, &num, sizeof(num))\<close>; the result is \<open>True\<close> unless the call returned -1.
  A script that has run out lets the write succeed. The table is not consulted: a write
  on the connection descriptor is taken to reach the channel, which holds as long as that
  descriptor is none of the slots 0 to 2 that \<^verbatim>\<open>dup2\<close> overwrites.\<close>

definition sys_write :: "fd \<Rightarrow> int \<Rightarrow> world \<Rightarrow> bool \<times> world" where
  "sys_write c v w = (case wr_ok w of
       [] \<Rightarrow> (True, emit (EvWrite c v True) w)
     | b # bs \<Rightarrow> (b, emit (EvWrite c v b) (w\<lparr>wr_ok := bs\<rparr>)))"

definition sys_close :: "fd \<Rightarrow> world \<Rightarrow> world" where
  "sys_close c w = emit (EvClose c)
     (if lookup (fdtab w) c = None then w else w\<lparr>fdtab := install (fdtab w) (nat c) None\<rparr>)"

definition sys_dup2 :: "fd \<Rightarrow> fd \<Rightarrow> world \<Rightarrow> bool \<times> world" where
  "sys_dup2 old new w = (case lookup (fdtab w) old of
       None \<Rightarrow> (False, emit (EvDup2 old new False) w)
     | Some f \<Rightarrow> (True, emit (EvDup2 old new True) (w\<lparr>fdtab := install (fdtab w) (nat new) (Some f)\<rparr>)))"

text \<open>The macro \<^verbatim>\<open>recvNum\<close>: \<open>Fail\<close> is the jump to the label \<^verbatim>\<open>error\<close>, taken only when
  \<^verbatim>\<open>read\<close> returns -1. A script that has run out answers -1.\<close>

definition recvNum :: "fd \<Rightarrow> world \<Rightarrow> int step \<times> world" where
  "recvNum c w = (case nums w of
       [] \<Rightarrow> (Fail, emit (EvRead c) w)
     | NErr # ns \<Rightarrow> (Fail, emit (EvRead c) (w\<lparr>nums := ns\<rparr>))
     | NShort v # ns \<Rightarrow> (Ok v, emit (EvRead c) (w\<lparr>nums := ns\<rparr>))
     | NFull v # ns \<Rightarrow> (Ok v, emit (EvRead c) (w\<lparr>nums := ns\<rparr>)))"

text \<open>The macro \<^verbatim>\<open>recvStr\<close>: the length, the growth of the buffer (\<^verbatim>\<open>num + 1\<close> overflows
  at \<^verbatim>\<open>INT_MAX\<close>), the read of the bytes, and the terminator \<^verbatim>\<open>buf[num] = '\0'\<close>, which
  lands outside the buffer when \<^verbatim>\<open>num\<close> is negative.\<close>

definition recvStr :: "fd \<Rightarrow> world \<Rightarrow> string step \<times> world" where
  "recvStr c w = bnd (recvNum c w) (\<lambda>num w.
     if num = INT_MAX then (Undef, w)
     else (case strs w of
         [] \<Rightarrow> (Fail, emit (EvRead c) w)
       | SErr # ss \<Rightarrow> (Fail, emit (EvRead c) (w\<lparr>strs := ss\<rparr>))
       | SRd k s # ss \<Rightarrow>
           (if num < 0 then Undef else Ok s, emit (EvRead c) (w\<lparr>strs := ss\<rparr>))))"

text \<open>The two loops that receive \<open>n\<close> strings in a row (the environment, and the
  arguments after the locator).\<close>

fun recvStrs :: "nat \<Rightarrow> fd \<Rightarrow> world \<Rightarrow> string list step \<times> world" where
  "recvStrs 0 c w = (Ok [], w)"
| "recvStrs (Suc n) c w =
     bnd (recvStr c w) (\<lambda>s w. bnd (recvStrs n c w) (\<lambda>ss w. (Ok (s # ss), w)))"

text \<open>\<^verbatim>\<open>read_fd\<close>: the value returned and the new content of \<^verbatim>\<open>*recvfd\<close>. A descriptor
  that arrives is installed by the kernel on the lowest free slot of the table.\<close>

definition read_fd :: "fd \<Rightarrow> int \<Rightarrow> world \<Rightarrow> (int \<times> int) \<times> world" where
  "read_fd c recvfd w = (case msgs w of
       [] \<Rightarrow> ((-1, recvfd), emit (EvRecvmsg c) w)
     | MErr # ms \<Rightarrow> ((-1, recvfd), emit (EvRecvmsg c) (w\<lparr>msgs := ms\<rparr>))
     | MEof # ms \<Rightarrow> ((0, recvfd), emit (EvRecvmsg c) (w\<lparr>msgs := ms\<rparr>))
     | MGot NoCtl # ms \<Rightarrow> ((1, -1), emit (EvRecvmsg c) (w\<lparr>msgs := ms\<rparr>))
     | MGot BadLevel # ms \<Rightarrow> ((1, recvfd), emit (EvRecvmsg c) (w\<lparr>msgs := ms\<rparr>))
     | MGot BadType # ms \<Rightarrow> ((1, recvfd), emit (EvRecvmsg c) (w\<lparr>msgs := ms\<rparr>))
     | MGot (Rights f) # ms \<Rightarrow>
         ((1, int (lowest_free (fdtab w))),
          emit (EvRecvmsg c)
            (w\<lparr>msgs := ms, fdtab := install (fdtab w) (lowest_free (fdtab w)) (Some f)\<rparr>)))"

subsection \<open>The daemon child: \<^verbatim>\<open>grow_this_zygote\<close>\<close>

text \<open>The version is checked, then the process id is written back.\<close>

definition handshake :: "config \<Rightarrow> fd \<Rightarrow> world \<Rightarrow> unit step \<times> world" where
  "handshake C c w = bnd (recvNum c w) (\<lambda>num w.
     if num \<noteq> ZYGOTE_VERSION C then (Fail, w)
     else (case sys_write c (getpid C) w of (ok, w) \<Rightarrow> (if ok then Ok () else Fail, w)))"

text \<open>The environment, the working directory, the argument count, the locator and the
  other arguments. The size of the new \<^verbatim>\<open>environ\<close> is computed from \<^verbatim>\<open>num + 1\<close>, an
  \<^verbatim>\<open>int\<close> that overflows when the count is \<^verbatim>\<open>INT_MAX\<close>; a negative environment count
  leaves no room for the terminating NULL of \<^verbatim>\<open>environ\<close>, and an argument count below
  one leaves no room for \<^verbatim>\<open>argv[0]\<close>.
  The result is \<^verbatim>\<open>argc\<close>, \<^verbatim>\<open>code_path\<close> and the elements of \<^verbatim>\<open>argv\<close> from index 1 on.\<close>

definition recv_request :: "fd \<Rightarrow> world \<Rightarrow> (int \<times> string \<times> string list) step \<times> world" where
  "recv_request c w =
     bnd (recvNum c w) (\<lambda>envc w.
     if envc = INT_MAX then (Undef, w) else
     bnd (recvStrs (nat envc) c w) (\<lambda>env w.
     if envc < 0 then (Undef, w) else
     bnd (recvStr c (emit (EvEnviron env) w)) (\<lambda>cwd w.
     bnd (recvNum c (emit (EvChdir cwd) w)) (\<lambda>argc w.
     bnd (recvStr c w) (\<lambda>code_path w.
     if argc \<le> 0 then (Undef, w) else
     bnd (recvStrs (nat (argc - 1)) c w) (\<lambda>args w.
     (Ok (argc, code_path, args), w)))))))"

definition load_unit :: "config \<Rightarrow> string option \<Rightarrow> world \<Rightarrow> run_t step \<times> world" where
  "load_unit C code_path w = (case dlopen C code_path of
       None \<Rightarrow> (Fail, emit (EvDlopen code_path) w)
     | Some handle \<Rightarrow> (case dlsym_run C handle of
           None \<Rightarrow> (Fail, emit EvDlsym (emit (EvDlopen code_path) w))
         | Some run \<Rightarrow> (Ok run, emit EvDlsym (emit (EvDlopen code_path) w))))"

text \<open>The three descriptors are received into \<^verbatim>\<open>fds[2]\<close>, \<^verbatim>\<open>fds[1]\<close>, \<^verbatim>\<open>fds[0]\<close>, in this
  order; the triple is \<^verbatim>\<open>(fds[0], fds[1], fds[2])\<close>.\<close>

definition recv_fds :: "fd \<Rightarrow> int \<times> int \<times> int \<Rightarrow> world \<Rightarrow> (int \<times> int \<times> int) step \<times> world" where
  "recv_fds c fds w = (case fds of (f0, f1, f2) \<Rightarrow>
     (case read_fd c f2 w of ((n, f2), w) \<Rightarrow> if n = -1 then (Fail, w) else
     (case read_fd c f1 w of ((n, f1), w) \<Rightarrow> if n = -1 then (Fail, w) else
     (case read_fd c f0 w of ((n, f0), w) \<Rightarrow> if n = -1 then (Fail, w) else
       (Ok (f0, f1, f2), w)))))"

definition dup_fds :: "int \<times> int \<times> int \<Rightarrow> world \<Rightarrow> unit step \<times> world" where
  "dup_fds fds w = (case fds of (f0, f1, f2) \<Rightarrow>
     (case sys_dup2 f0 0 w of (ok, w) \<Rightarrow> if \<not> ok then (Fail, w) else
     (case sys_dup2 f1 1 w of (ok, w) \<Rightarrow> if \<not> ok then (Fail, w) else
     (case sys_dup2 f2 2 w of (ok, w) \<Rightarrow> if \<not> ok then (Fail, w) else
       (Ok (), w)))))"

text \<open>The call of the entry point and what follows it: with \<^verbatim>\<open>HAS_ON_EXIT\<close> the reply is
  left to an exit hook, without it the result is written at once.\<close>

definition run_unit :: "config \<Rightarrow> fd \<Rightarrow> ptr list \<Rightarrow> run_t \<Rightarrow> int \<Rightarrow> string list \<Rightarrow> world \<Rightarrow> int step \<times> world" where
  "run_unit C c objv run argc argv w =
     (let objc = int (length objv);
          num = run objc objv argc argv;
          w = emit EvDlclose (emit (EvRun objc objv argc argv) w)
      in if HAS_ON_EXIT C
         then (Ok num, emit EvOnExit
                 (w\<lparr>grow_connection_fd := c, exit_hooks := ReplyWithExitStatus # exit_hooks w\<rparr>))
         else (case sys_write c num w of (ok, w) \<Rightarrow> (if ok then Ok num else Fail, w)))"

text \<open>What lies between the handshake and the call of the entry point: the request is
  decoded, the unit is loaded, the descriptors are received and installed. The result is
  the entry point with \<^verbatim>\<open>argc\<close> and \<^verbatim>\<open>argv\<close>.\<close>

definition receive :: "config \<Rightarrow> fd \<Rightarrow> world \<Rightarrow> (run_t \<times> int \<times> string list) step \<times> world" where
  "receive C c w =
     bnd (recv_request c w) (\<lambda>(argc, code_path, args) w.
     bnd (load_unit C (Some code_path) w) (\<lambda>run w.
     bnd (recv_fds c (fds_init C) w) (\<lambda>fds w.
     bnd (dup_fds fds w) (\<lambda>_ w.
     (Ok (run, argc, code_path # args), w)))))"

text \<open>The body of \<^verbatim>\<open>grow_this_zygote\<close> up to its \<^verbatim>\<open>return\<close> or its jump to \<^verbatim>\<open>error\<close>.\<close>

definition grow_body :: "config \<Rightarrow> fd \<Rightarrow> ptr list \<Rightarrow> world \<Rightarrow> int step \<times> world" where
  "grow_body C c objv w =
     bnd (handshake C c w) (\<lambda>_ w.
     bnd (receive C c w) (\<lambda>(run, argc, argv) w.
     run_unit C c objv run argc argv w))"

subsection \<open>Exit hooks and the endpoint cleanup\<close>

definition cleanup :: "world \<Rightarrow> world" where
  "cleanup w =
     (let w = (if zygote_socket_fd w \<noteq> -1 then sys_close (zygote_socket_fd w) w else w)
      in case zygote_socket_path w of None \<Rightarrow> w | Some path \<Rightarrow> emit (EvUnlink path) w)"

definition replyWithExitStatus :: "int \<Rightarrow> world \<Rightarrow> world" where
  "replyWithExitStatus status w =
     (if grow_connection_fd w \<noteq> -1 then snd (sys_write (grow_connection_fd w) status w) else w)"

fun run_hooks :: "hook list \<Rightarrow> int \<Rightarrow> world \<Rightarrow> world" where
  "run_hooks [] status w = w"
| "run_hooks (Cleanup # hs) status w = run_hooks hs status (cleanup w)"
| "run_hooks (ReplyWithExitStatus # hs) status w =
     run_hooks hs status (replyWithExitStatus status w)"

text \<open>\<^verbatim>\<open>exit(status)\<close>: the registered hooks run, the most recently registered first
  (\<open>exit_hooks\<close> is kept in that order), then the process ends.\<close>

definition c_exit :: "int \<Rightarrow> world \<Rightarrow> world" where
  "c_exit status w = emit (EvExit status) (run_hooks (exit_hooks w) status (w\<lparr>exit_hooks := []\<rparr>))"

definition cleanupBeforeExit :: "int \<Rightarrow> world \<Rightarrow> world" where
  "cleanupBeforeExit sig w = c_exit sig (cleanup w)"

text \<open>The whole of \<^verbatim>\<open>grow_this_zygote\<close>, the label \<^verbatim>\<open>error\<close> included.\<close>

definition grow_this_zygote :: "config \<Rightarrow> fd \<Rightarrow> ptr list \<Rightarrow> world \<Rightarrow> outcome \<times> world" where
  "grow_this_zygote C c objv w = (case grow_body C c objv w of
       (Ok num, w) \<Rightarrow> (Returned num, w)
     | (Undef, w) \<Rightarrow> (Undefined, w)
     | (Fail, w) \<Rightarrow>
         (Exited EXIT_FAILURE,
          c_exit EXIT_FAILURE (sys_close c (snd (sys_write c EXIT_FAILURE w)))))"

subsection \<open>The daemon: \<^verbatim>\<open>zygote\<close> and \<^verbatim>\<open>zygote_skip\<close>\<close>

text \<open>What \<^verbatim>\<open>zygote\<close> records once the socket listens (lines 378 to 380), and the child's
  branch of the fork (lines 402 to 410).\<close>

definition zygote_listening :: "fd \<Rightarrow> string \<Rightarrow> world \<Rightarrow> world" where
  "zygote_listening socket_fd socket_path w =
     w\<lparr>zygote_socket_fd := socket_fd, zygote_socket_path := Some socket_path,
       exit_hooks := Cleanup # exit_hooks w\<rparr>"

definition zygote_child :: "config \<Rightarrow> fd \<Rightarrow> ptr list \<Rightarrow> world \<Rightarrow> outcome \<times> world" where
  "zygote_child C connection_fd objv w =
     grow_this_zygote C connection_fd objv (w\<lparr>zygote_socket_fd := -1, zygote_socket_path := None\<rparr>)"

definition zygote_skip :: "config \<Rightarrow> string \<Rightarrow> ptr list \<Rightarrow> world \<Rightarrow> int \<times> world" where
  "zygote_skip C socket_path objv w = (case load_unit C None w of
       (Ok run, w) \<Rightarrow>
         (run (int (length objv)) objv 1 [''''], emit (EvRun (int (length objv)) objv 1 ['''']) w)
     | (_, w) \<Rightarrow> (-1, w))"

subsection \<open>The client: \<^verbatim>\<open>grow.c\<close>\<close>

text \<open>What the client puts on the channel, one item for each \<^verbatim>\<open>write\<close> or \<^verbatim>\<open>sendmsg\<close>.\<close>

datatype wire = WNum int | WStr string | WFd fd

datatype cevent =
    CSocket bool
  | CConnect string bool
  | CSend fd wire bool
  | CRead fd
  | CClose fd

text \<open>What \<^verbatim>\<open>socket\<close> and \<^verbatim>\<open>connect\<close> can do in \<^verbatim>\<open>open_unix_fd\<close>.\<close>

datatype conn_rd = SocketFails | ConnectFails fd | Connected fd

text \<open>The process the client runs in: its environment, what \<^verbatim>\<open>getcwd\<close> leaves in
  \<^verbatim>\<open>buf\<close>, the two constants, and the answers to its system calls.\<close>

record client =
  environ :: "string list"
  cwd_buf :: string
  UNIX_PATH_MAX :: int
  CLIENT_VERSION :: int
  connect_rd :: conn_rd
  send_ok :: "bool list"
  reply_rd :: num_rd

text \<open>\<^verbatim>\<open>strlen\<close> returns a \<^verbatim>\<open>size_t\<close>, which \<^verbatim>\<open>sendNum\<close> stores into the \<^verbatim>\<open>int num\<close>.\<close>

definition int32 :: "nat \<Rightarrow> int" where
  "int32 n = (int n + 2147483648) mod 4294967296 - 2147483648"

definition open_unix_fd :: "client \<Rightarrow> string \<Rightarrow> fd \<times> cevent list" where
  "open_unix_fd K path =
     (if int (length path) \<ge> UNIX_PATH_MAX K - 1 then (-1, [])
      else (case connect_rd K of
          SocketFails \<Rightarrow> (-1, [CSocket False])
        | ConnectFails s \<Rightarrow> (-1, [CSocket True, CConnect path False, CClose s])
        | Connected s \<Rightarrow> (s, [CSocket True, CConnect path True])))"

text \<open>The macro \<^verbatim>\<open>sendStr\<close> is two writes: the length, then that many bytes.\<close>

definition sendStr :: "string \<Rightarrow> wire list" where
  "sendStr s = (let num = int32 (length s) in [WNum num, WStr (take (nat num) s)])"

text \<open>The writes of \<^verbatim>\<open>main\<close> in their order, from the version to the three descriptors.\<close>

definition request :: "client \<Rightarrow> string list \<Rightarrow> wire list" where
  "request K argv =
     [WNum (CLIENT_VERSION K)]
     @ [WNum (int (length (environ K)))] @ concat (map sendStr (environ K))
     @ sendStr (cwd_buf K)
     @ [WNum (int (length argv) - 2)]
     @ sendStr (argv ! 2)
     @ concat (map sendStr (drop 3 argv))
     @ [WFd 2, WFd 1, WFd 0]"

text \<open>Every write is followed by \<^verbatim>\<open>goto error\<close> when it returns -1: the items go out in
  order until one fails. A script that has run out lets the write succeed.\<close>

fun send_all :: "fd \<Rightarrow> wire list \<Rightarrow> bool list \<Rightarrow> bool \<times> cevent list" where
  "send_all s [] oks = (True, [])"
| "send_all s (x # xs) [] = (case send_all s xs [] of (r, tr) \<Rightarrow> (r, CSend s x True # tr))"
| "send_all s (x # xs) (True # oks) =
     (case send_all s xs oks of (r, tr) \<Rightarrow> (r, CSend s x True # tr))"
| "send_all s (x # xs) (False # oks) = (False, [CSend s x False])"

definition grow_main :: "client \<Rightarrow> string list \<Rightarrow> int \<times> cevent list" where
  "grow_main K argv =
     (if int (length argv) < 3 then (1, [])
      else (case open_unix_fd K (argv ! 1) of (socket_fd, tr0) \<Rightarrow>
        if socket_fd = -1 then (-1, tr0)
        else (case send_all socket_fd (request K argv) (send_ok K) of
            (False, tr) \<Rightarrow> (-1, tr0 @ tr @ [CClose socket_fd])
          | (True, tr) \<Rightarrow>
              (case reply_rd K of
                  NErr \<Rightarrow> (-1, tr0 @ tr @ [CRead socket_fd, CClose socket_fd])
                | NShort num \<Rightarrow> (num, tr0 @ tr @ [CRead socket_fd, CClose socket_fd])
                | NFull num \<Rightarrow> (num, tr0 @ tr @ [CRead socket_fd, CClose socket_fd])))))"

subsection \<open>The channel between the two\<close>

text \<open>A channel that delivers whole what was written: every integer and every string
  arrives by a full read, and every descriptor message carries the open file that the
  sender's descriptor refers to (\<open>files\<close> is the sender's descriptor table).\<close>

fun wire_nums :: "wire list \<Rightarrow> num_rd list" where
  "wire_nums [] = []"
| "wire_nums (WNum v # xs) = NFull v # wire_nums xs"
| "wire_nums (x # xs) = wire_nums xs"

fun wire_strs :: "wire list \<Rightarrow> str_rd list" where
  "wire_strs [] = []"
| "wire_strs (WStr s # xs) = SRd (length s) s # wire_strs xs"
| "wire_strs (x # xs) = wire_strs xs"

fun wire_msgs :: "(fd \<Rightarrow> ofile) \<Rightarrow> wire list \<Rightarrow> msg_rd list" where
  "wire_msgs files [] = []"
| "wire_msgs files (WFd k # xs) = MGot (Rights (files k)) # wire_msgs files xs"
| "wire_msgs files (x # xs) = wire_msgs files xs"

definition deliver :: "(fd \<Rightarrow> ofile) \<Rightarrow> wire list \<Rightarrow> world \<Rightarrow> world" where
  "deliver files xs w =
     w\<lparr>nums := wire_nums xs, strs := wire_strs xs, msgs := wire_msgs files xs\<rparr>"

text \<open>The integers that reached the channel \<open>c\<close>, in the order of the writes.\<close>

fun written :: "fd \<Rightarrow> event list \<Rightarrow> int list" where
  "written c [] = []"
| "written c (EvWrite c' v ok # es) = (if c' = c \<and> ok then v # written c es else written c es)"
| "written c (e # es) = written c es"

text \<open>What the client's one \<^verbatim>\<open>read\<close> finds: the first integer on the stream, or the
  end of the stream, which leaves \<^verbatim>\<open>num\<close> as it was.\<close>

definition first_reply :: "int \<Rightarrow> int list \<Rightarrow> num_rd" where
  "first_reply num vs = (case vs of [] \<Rightarrow> NShort num | v # _ \<Rightarrow> NFull v)"

subsection \<open>Notions used in the proofs\<close>

text \<open>Three kinds of events: those that change the descriptor table, those that change
  the exit hooks, and the writes.\<close>

fun fd_event :: "event \<Rightarrow> bool" where
  "fd_event (EvRecvmsg c) = True"
| "fd_event (EvDup2 a b ok) = True"
| "fd_event (EvClose c) = True"
| "fd_event e = False"

fun hook_event :: "event \<Rightarrow> bool" where
  "hook_event EvOnExit = True"
| "hook_event (EvExit s) = True"
| "hook_event e = False"

fun write_event :: "event \<Rightarrow> bool" where
  "write_event (EvWrite c v ok) = True"
| "write_event e = False"

text \<open>The events of the call itself.\<close>

fun call_event :: "event \<Rightarrow> bool" where
  "call_event (EvRun objc objv argc argv) = True"
| "call_event EvDlclose = True"
| "call_event e = False"

text \<open>\<open>evolves A w w'\<close>: from \<open>w\<close> to \<open>w'\<close> the trace grew by events of \<open>A\<close> only, the
  endpoint variables are untouched, and so is every part of the world whose events
  \<open>A\<close> excludes.\<close>

definition evolves :: "(event \<Rightarrow> bool) \<Rightarrow> world \<Rightarrow> world \<Rightarrow> bool" where
  "evolves A w w' \<longleftrightarrow>
     (\<exists>es. trace w' = trace w @ es \<and> (\<forall>e\<in>set es. A e))
     \<and> zygote_socket_fd w' = zygote_socket_fd w
     \<and> zygote_socket_path w' = zygote_socket_path w
     \<and> ((\<forall>e. A e \<longrightarrow> \<not> write_event e) \<longrightarrow> wr_ok w' = wr_ok w)
     \<and> ((\<forall>e. A e \<longrightarrow> \<not> fd_event e) \<longrightarrow> fdtab w' = fdtab w \<and> msgs w' = msgs w)
     \<and> ((\<forall>e. A e \<longrightarrow> \<not> hook_event e) \<longrightarrow>
           exit_hooks w' = exit_hooks w \<and> grow_connection_fd w' = grow_connection_fd w)"

text \<open>The events that only the label \<^verbatim>\<open>error\<close> and the exit path produce.\<close>

fun ending :: "event \<Rightarrow> bool" where
  "ending (EvClose k) = True"
| "ending (EvUnlink p) = True"
| "ending (EvExit s) = True"
| "ending e = False"

text \<open>What one run of \<^verbatim>\<open>cleanup\<close> adds to the trace.\<close>

definition cleanup_events :: "world \<Rightarrow> event list" where
  "cleanup_events w =
     (if zygote_socket_fd w \<noteq> -1 then [EvClose (zygote_socket_fd w)] else [])
     @ (case zygote_socket_path w of None \<Rightarrow> [] | Some path \<Rightarrow> [EvUnlink path])"

text \<open>What the full reads of the length and of the bytes of a string \<open>s\<close> deliver.\<close>

definition full_num :: "string \<Rightarrow> num_rd" where
  "full_num s = NFull (int (length s))"

definition full_str :: "string \<Rightarrow> str_rd" where
  "full_str s = SRd (length s) s"

text \<open>The state that a child of the listening daemon keeps while every write succeeds:
  what has reached the channel so far, the one hook, and the cleared endpoint.\<close>

definition steady :: "fd \<Rightarrow> int list \<Rightarrow> world \<Rightarrow> bool" where
  "steady c vs w \<longleftrightarrow>
     written c (trace w) = vs \<and> list_all id (wr_ok w) \<and> exit_hooks w = [Cleanup] \<and>
     zygote_socket_fd w = -1 \<and> zygote_socket_path w = None"

subsection \<open>Failed calls and byte counts\<close>

text \<open>What a run has taken from a script: the part of \<open>before\<close> that is gone in \<open>after\<close>.\<close>

definition consumed :: "'a list \<Rightarrow> 'a list \<Rightarrow> 'a list" where
  "consumed before after = take (length before - length after) before"

text \<open>\<open>clean w w'\<close>: from \<open>w\<close> to \<open>w'\<close> no read and no \<^verbatim>\<open>recvmsg\<close> returned -1 and no
  \<^verbatim>\<open>dup2\<close> failed.\<close>

definition clean :: "world \<Rightarrow> world \<Rightarrow> bool" where
  "clean w w' \<longleftrightarrow>
     (\<exists>ns. nums w = ns @ nums w' \<and> NErr \<notin> set ns) \<and>
     (\<exists>ss. strs w = ss @ strs w' \<and> SErr \<notin> set ss) \<and>
     (\<exists>ms. msgs w = ms @ msgs w' \<and> MErr \<notin> set ms) \<and>
     (\<exists>es. trace w' = trace w @ es \<and> (\<forall>a b. EvDup2 a b False \<notin> set es))"

definition cleanly :: "world \<Rightarrow> 'a step \<times> world \<Rightarrow> bool" where
  "cleanly w m \<longleftrightarrow> (\<forall>x w'. m = (Ok x, w') \<longrightarrow> clean w w')"

text \<open>The same scripts without the byte counts: every read of an integer that did not
  return -1 counts as full, and no read of a string says how many bytes it transferred.\<close>

fun full_of :: "num_rd \<Rightarrow> num_rd" where
  "full_of (NShort v) = NFull v"
| "full_of x = x"

fun no_count :: "str_rd \<Rightarrow> str_rd" where
  "no_count (SRd k s) = SRd 0 s"
| "no_count SErr = SErr"

definition erase_counts :: "world \<Rightarrow> world" where
  "erase_counts w = w\<lparr>nums := map full_of (nums w), strs := map no_count (strs w)\<rparr>"

text \<open>\<open>same_but_counts m' m\<close>: the two results are the same, up to the byte counts left in
  the scripts.\<close>

definition same_but_counts :: "'a \<times> world \<Rightarrow> 'a \<times> world \<Rightarrow> bool" where
  "same_but_counts m' m \<longleftrightarrow> m' = (fst m, erase_counts (snd m))"

subsection \<open>A daemon and a request, for the worked instances\<close>

text \<open>A daemon that listens on descriptor 3 at \<^verbatim>\<open>/tmp/z\<close>, with the standard streams and a
  connection on descriptor 4 open, nothing on the channel yet and nothing done yet.\<close>

definition wA :: world where
  "wA = \<lparr>nums = [], strs = [], msgs = [], wr_ok = [],
     fdtab = [Some 10, Some 11, Some 12, Some 13, Some 14],
     zygote_socket_fd = 3, zygote_socket_path = Some ''/tmp/z'', grow_connection_fd = 0,
     exit_hooks = [Cleanup], trace = []\<rparr>"

text \<open>A build without the exit hook, version 8, whose child has the process id 4242 and
  whose loader finds \<^verbatim>\<open>unit.so\<close> only, with an entry point that returns 7; and a build
  with the hook, whose own image holds an entry point.\<close>

definition CA :: config where
  "CA = \<lparr>ZYGOTE_VERSION = 8, HAS_ON_EXIT = False, getpid = 4242,
     dlopen = (\<lambda>p. if p = Some ''unit.so'' then Some 0 else None),
     dlsym_run = (\<lambda>h. Some (\<lambda>objc objv argc argv. 7)), fds_init = (-7, -7, -7)\<rparr>"

definition CB :: config where
  "CB = \<lparr>ZYGOTE_VERSION = 8, HAS_ON_EXIT = True, getpid = 4242,
     dlopen = (\<lambda>p. Some 0),
     dlsym_run = (\<lambda>h. Some (\<lambda>objc objv argc argv. objc + argc + int (length argv))),
     fds_init = (-7, -7, -7)\<rparr>"

text \<open>The client run \<^verbatim>\<open>grow /tmp/z unit.so a\<close>, in the directory \<^verbatim>\<open>/\<close> with the one
  environment string \<^verbatim>\<open>A=1\<close>; its descriptors 0, 1, 2 refer to the files 20, 21, 22.\<close>

definition KA :: client where
  "KA = \<lparr>environ = [''A=1''], cwd_buf = ''/'', UNIX_PATH_MAX = 108, CLIENT_VERSION = 8,
     connect_rd = Connected 3, send_ok = [], reply_rd = NErr\<rparr>"

definition argvA :: "string list" where
  "argvA = [''grow'', ''/tmp/z'', ''unit.so'', ''a'']"

definition filesA :: "fd \<Rightarrow> ofile" where
  "filesA k = 20 + nat k"

text \<open>A request whose working directory arrives by a short read (two bytes of four), and
  a request whose environment count is negative.\<close>

definition wS :: world where
  "wS = wA\<lparr>nums := [NFull 8, NFull 0, NFull 4, NFull 1, NFull 7],
            strs := [SRd 2 ''/t'', SRd 7 ''unit.so''],
            msgs := [MGot (Rights 22), MGot (Rights 21), MGot (Rights 20)]\<rparr>"

definition wN :: world where
  "wN = wA\<lparr>nums := [NFull 8, NFull (-2)]\<rparr>"

section \<open>Properties\<close>

subsection \<open>How the world evolves under each step\<close>

lemma evolves_refl: "evolves A w w"
  by (simp add: evolves_def)

lemma evolves_trans: "evolves A w w1 \<Longrightarrow> evolves A w1 w2 \<Longrightarrow> evolves A w w2"
  unfolding evolves_def by (elim conjE exE) (simp, blast)

lemma evolves_emit: "A e \<Longrightarrow> evolves A w (emit e w)"
  by (auto simp: evolves_def emit_def)

lemma evolves_bnd:
  assumes "evolves A w (snd m)"
    and "\<And>x w1. evolves A w1 (snd (f x w1))"
  shows "evolves A w (snd (bnd m f))"
proof (cases m)
  case (Pair r w1)
  show ?thesis
  proof (cases r)
    case (Ok x)
    with Pair assms(1) assms(2)[of w1 x] show ?thesis
      by (auto simp: bnd_def intro: evolves_trans)
  qed (use Pair assms(1) in \<open>auto simp: bnd_def\<close>)
qed

lemma evolves_recvNum: "A (EvRead c) \<Longrightarrow> evolves A w (snd (recvNum c w))"
  by (auto simp: recvNum_def evolves_def emit_def split: list.splits num_rd.splits)

lemma evolves_recvStr: "A (EvRead c) \<Longrightarrow> evolves A w (snd (recvStr c w))"
  unfolding recvStr_def
  by (rule evolves_bnd, erule evolves_recvNum)
     (auto simp: evolves_def emit_def split: list.splits str_rd.splits)

lemma evolves_recvStrs: "A (EvRead c) \<Longrightarrow> evolves A w (snd (recvStrs n c w))"
proof (induction n arbitrary: w)
  case 0
  then show ?case by (simp add: evolves_refl)
next
  case (Suc n)
  show ?case
    unfolding recvStrs.simps
    by (intro evolves_bnd evolves_recvStr Suc) (simp_all add: evolves_refl)
qed

lemma evolves_sys_write:
  assumes "\<And>ok. A (EvWrite c v ok)"
  shows "evolves A w (snd (sys_write c v w))"
proof -
  have "\<exists>e. A e \<and> write_event e"
    using assms[of True] by (intro exI[of _ "EvWrite c v True"]) simp
  with assms show ?thesis
    by (auto simp: sys_write_def evolves_def emit_def split: list.splits)
qed

lemma evolves_sys_close: "A (EvClose c) \<Longrightarrow> evolves A w (sys_close c w)"
  by (auto simp: sys_close_def evolves_def emit_def)

lemma evolves_sys_dup2:
  assumes "\<And>ok. A (EvDup2 a b ok)"
  shows "evolves A w (snd (sys_dup2 a b w))"
proof -
  have "\<exists>e. A e \<and> fd_event e"
    using assms[of True] by (intro exI[of _ "EvDup2 a b True"]) simp
  with assms show ?thesis
    by (auto simp: sys_dup2_def evolves_def emit_def split: option.splits)
qed

lemma evolves_read_fd: "A (EvRecvmsg c) \<Longrightarrow> evolves A w (snd (read_fd c r w))"
  by (auto simp: read_fd_def evolves_def emit_def split: list.splits msg_rd.splits ctl.splits)

lemma evolves_snd: "evolves A w (snd (r, w))"
  by (simp add: evolves_refl)

lemma evolves_if:
  "(b \<Longrightarrow> evolves A w (snd x)) \<Longrightarrow> (\<not> b \<Longrightarrow> evolves A w (snd y)) \<Longrightarrow>
   evolves A w (snd (if b then x else y))"
  by simp

lemma evolves_prod:
  "(\<And>a b. evolves A w (snd (f a b))) \<Longrightarrow> evolves A w (snd (case p of (a, b) \<Rightarrow> f a b))"
  by (cases p) simp

lemma evolves_recvNum_emit:
  "A e \<Longrightarrow> A (EvRead c) \<Longrightarrow> evolves A w (snd (recvNum c (emit e w)))"
  by (blast intro: evolves_trans evolves_emit evolves_recvNum)

lemma evolves_recvStr_emit:
  "A e \<Longrightarrow> A (EvRead c) \<Longrightarrow> evolves A w (snd (recvStr c (emit e w)))"
  by (blast intro: evolves_trans evolves_emit evolves_recvStr)

lemma evolves_write_step:
  assumes "\<And>ok. A (EvWrite c v ok)"
  shows "evolves A w (snd (case sys_write c v w of (ok, w) \<Rightarrow> (if ok then Ok x else Fail, w)))"
  using evolves_sys_write[of A c v w, OF assms] by (cases "sys_write c v w") simp

lemmas evolves_steps = evolves_bnd evolves_if evolves_snd evolves_prod evolves_recvNum
  evolves_recvStr evolves_recvStrs evolves_recvNum_emit evolves_recvStr_emit evolves_write_step

lemma evolves_handshake:
  assumes "A (EvRead c)" and "\<And>ok. A (EvWrite c (getpid C) ok)"
  shows "evolves A w (snd (handshake C c w))"
  unfolding handshake_def by (intro evolves_steps assms)

lemma evolves_recv_request:
  assumes "A (EvRead c)" and "\<And>x. A (EvEnviron x)" and "\<And>x. A (EvChdir x)"
  shows "evolves A w (snd (recv_request c w))"
  unfolding recv_request_def by (intro evolves_steps assms)

lemma evolves_load_unit:
  assumes "A (EvDlopen p)" and "A EvDlsym"
  shows "evolves A w (snd (load_unit C p w))"
  using assms
  by (auto simp: load_unit_def split: option.splits
           intro: evolves_emit evolves_trans[OF evolves_emit evolves_emit])

lemma evolves_recv_fds:
  assumes "A (EvRecvmsg c)"
  shows "evolves A w (snd (recv_fds c fds w))"
proof -
  have r: "\<And>w f. evolves A w (snd (read_fd c f w))"
    by (rule evolves_read_fd) (rule assms)
  obtain f0 f1 f2 where fds: "fds = (f0, f1, f2)" by (cases fds) auto
  obtain n2 g2 w2 where a: "read_fd c f2 w = ((n2, g2), w2)" by (metis surj_pair)
  obtain n1 g1 w1 where b: "read_fd c f1 w2 = ((n1, g1), w1)" by (metis surj_pair)
  obtain n0 g0 w0 where c: "read_fd c f0 w1 = ((n0, g0), w0)" by (metis surj_pair)
  from r[of w f2] a have 1: "evolves A w w2" by simp
  from r[of w2 f1] b have 2: "evolves A w2 w1" by simp
  from r[of w1 f0] c have 3: "evolves A w1 w0" by simp
  show ?thesis
    using 1 evolves_trans[OF 1 2] evolves_trans[OF evolves_trans[OF 1 2] 3]
    by (simp add: recv_fds_def fds a b c evolves_refl)
qed

lemma evolves_dup_fds:
  assumes "\<And>a b ok. A (EvDup2 a b ok)"
  shows "evolves A w (snd (dup_fds fds w))"
proof -
  have r: "\<And>a b w. evolves A w (snd (sys_dup2 a b w))"
    by (rule evolves_sys_dup2) (rule assms)
  obtain f0 f1 f2 where fds: "fds = (f0, f1, f2)" by (cases fds) auto
  obtain k0 w0 where a: "sys_dup2 f0 0 w = (k0, w0)" by (metis surj_pair)
  obtain k1 w1 where b: "sys_dup2 f1 1 w0 = (k1, w1)" by (metis surj_pair)
  obtain k2 w2 where c: "sys_dup2 f2 2 w1 = (k2, w2)" by (metis surj_pair)
  from r[where a=f0 and b=0 and w=w] a have 1: "evolves A w w0" by simp
  from r[where a=f1 and b=1 and w=w0] b have 2: "evolves A w0 w1" by simp
  from r[where a=f2 and b=2 and w=w1] c have 3: "evolves A w1 w2" by simp
  show ?thesis
    using 1 evolves_trans[OF 1 2] evolves_trans[OF evolves_trans[OF 1 2] 3]
    by (simp add: dup_fds_def fds a b c evolves_refl)
qed

lemma evolves_run_unit:
  assumes "\<And>a b c d. A (EvRun a b c d)" and "A EvDlclose" and "A EvOnExit"
    and "\<And>v ok. A (EvWrite c v ok)"
  shows "evolves A w (snd (run_unit C c objv run argc argv w))"
proof (cases "HAS_ON_EXIT C")
  case True
  have "\<exists>e. A e \<and> hook_event e"
    using assms(3) by (intro exI[of _ EvOnExit]) simp
  with True assms show ?thesis
    by (auto simp: run_unit_def Let_def evolves_def emit_def)
next
  case False
  let ?w = "emit EvDlclose (emit (EvRun (int (length objv)) objv argc argv) w)"
  have 1: "evolves A w ?w"
    by (intro evolves_trans[OF evolves_emit evolves_emit] assms)
  have 2: "evolves A ?w (snd (sys_write c (run (int (length objv)) objv argc argv) ?w))"
    by (rule evolves_sys_write) (rule assms)
  from False evolves_trans[OF 1 2] show ?thesis
    by (cases "sys_write c (run (int (length objv)) objv argc argv) ?w")
       (simp add: run_unit_def Let_def)
qed

lemma evolves_cleanup:
  assumes "\<And>k. A (EvClose k)" and "\<And>p. A (EvUnlink p)"
  shows "evolves A w (cleanup w)"
proof -
  let ?w = "if zygote_socket_fd w \<noteq> -1 then sys_close (zygote_socket_fd w) w else w"
  have 1: "evolves A w ?w"
    by (simp add: evolves_refl evolves_sys_close assms)
  have 2: "evolves A ?w (case zygote_socket_path ?w of None \<Rightarrow> ?w | Some path \<Rightarrow> emit (EvUnlink path) ?w)"
    by (simp add: evolves_refl evolves_emit assms split: option.splits)
  from evolves_trans[OF 1 2] show ?thesis
    by (simp add: cleanup_def Let_def)
qed


lemma evolves_prod_app:
  "(\<And>a b. evolves A w (snd (f a b w'))) \<Longrightarrow>
   evolves A w (snd ((case p of (a, b) \<Rightarrow> f a b) w'))"
  by (cases p) simp

lemma evolves_reply:
  assumes "\<And>c v ok. A (EvWrite c v ok)"
  shows "evolves A w (replyWithExitStatus s w)"
  by (simp add: replyWithExitStatus_def evolves_refl evolves_sys_write assms)

lemma evolves_run_hooks:
  assumes "\<And>k. A (EvClose k)" and "\<And>p. A (EvUnlink p)" and "\<And>c v ok. A (EvWrite c v ok)"
  shows "evolves A w (run_hooks hs s w)"
proof (induction hs arbitrary: w)
  case Nil
  show ?case by (simp add: evolves_refl)
next
  case (Cons h hs)
  have c: "evolves A w (cleanup w)"
    by (intro evolves_cleanup assms)
  have r: "evolves A w (replyWithExitStatus s w)"
    by (intro evolves_reply assms)
  show ?case
    using evolves_trans[OF c Cons] evolves_trans[OF r Cons] by (cases h) simp_all
qed

lemma evolves_c_exit:
  assumes "\<And>k. A (EvClose k)" and "\<And>p. A (EvUnlink p)" and "\<And>c v ok. A (EvWrite c v ok)"
    and "A (EvExit s)"
  shows "evolves A w (c_exit s w)"
proof -
  have "\<exists>e. A e \<and> hook_event e"
    using assms(4) by (intro exI[of _ "EvExit s"]) simp
  then have 1: "evolves A w (w\<lparr>exit_hooks := []\<rparr>)"
    by (auto simp: evolves_def)
  have 2: "evolves A (w\<lparr>exit_hooks := []\<rparr>) (run_hooks (exit_hooks w) s (w\<lparr>exit_hooks := []\<rparr>))"
    by (intro evolves_run_hooks assms)
  from evolves_trans[OF evolves_trans[OF 1 2] evolves_emit, of "EvExit s"] assms(4)
  show ?thesis by (simp add: c_exit_def)
qed

lemma evolves_receive:
  assumes "\<And>e. \<not> ending e \<Longrightarrow> \<not> write_event e \<Longrightarrow> \<not> hook_event e \<Longrightarrow> \<not> call_event e \<Longrightarrow> A e"
  shows "evolves A w (snd (receive C c w))"
  unfolding receive_def
  by (intro evolves_steps evolves_prod_app evolves_recv_request
        evolves_load_unit evolves_recv_fds evolves_dup_fds assms) simp_all

lemma evolves_grow_body:
  assumes "\<And>e. \<not> ending e \<Longrightarrow> A e"
  shows "evolves A w (snd (grow_body C c objv w))"
  unfolding grow_body_def
  by (intro evolves_steps evolves_prod_app evolves_handshake evolves_receive
        evolves_run_unit assms) simp_all

lemma evolves_error:
  assumes "\<And>e. A e"
  shows "evolves A w (c_exit s (sys_close c (snd (sys_write c v w))))"
  by (intro evolves_trans[OF evolves_sys_write evolves_trans[OF evolves_sys_close evolves_c_exit]] assms)

lemma grow_this_zygote_evolves:
  "evolves (\<lambda>e. True) w (snd (grow_this_zygote C c objv w))"
proof -
  obtain r w1 where b: "grow_body C c objv w = (r, w1)" by (metis surj_pair)
  have 1: "evolves (\<lambda>e. True) w w1"
    using evolves_grow_body[of "\<lambda>e. True" w C c objv] b by simp
  show ?thesis
    using 1 evolves_trans[OF 1 evolves_error[of "\<lambda>e. True" w1 EXIT_FAILURE c EXIT_FAILURE]]
    by (cases r) (simp_all add: grow_this_zygote_def b)
qed

lemma cleanup_cleared:
  "zygote_socket_fd w = -1 \<Longrightarrow> zygote_socket_path w = None \<Longrightarrow> cleanup w = w"
  by (simp add: cleanup_def)

lemma evolves_prefix: "evolves A w w' \<Longrightarrow> prefix (trace w) (trace w')"
  by (auto simp: evolves_def)

lemma grow_this_zygote_after:
  assumes "handshake C c w = (r, w1)"
  shows "evolves (\<lambda>e. True) w1 (snd (grow_this_zygote C c objv w))"
proof -
  let ?rest = "\<lambda>(u::unit) w. bnd (receive C c w) (\<lambda>(run, argc, argv) w.
     run_unit C c objv run argc argv w)"
  have rest: "\<And>u w. evolves (\<lambda>e. True) w (snd (?rest u w))"
    by (intro evolves_steps evolves_prod_app evolves_receive evolves_run_unit) simp_all
  obtain r2 w2 where b: "grow_body C c objv w = (r2, w2)" by (metis surj_pair)
  have "evolves (\<lambda>e. True) w1 w2"
    using b assms rest[of w1] by (cases r) (auto simp: grow_body_def bnd_def evolves_refl)
  then show ?thesis
    using evolves_trans[OF _ evolves_error[of "\<lambda>e. True" w2 EXIT_FAILURE c EXIT_FAILURE]]
    by (cases r2) (simp_all add: grow_this_zygote_def b)
qed

subsection \<open>The handshake\<close>

text \<open>Claim C3. When the version that arrives equals the compiled-in constant, the next
  thing the child does on the channel, right after that one read, is to write its own
  process id; every later read of the request comes after that write.\<close>

theorem pid_reply_follows_version:
  assumes "nums w = NFull (ZYGOTE_VERSION C) # ns"
  shows "prefix (trace w @ [EvRead c, EvWrite c (getpid C) (wr_ok w = [] \<or> hd (wr_ok w))])
           (trace (snd (grow_this_zygote C c objv w)))"
proof -
  obtain r w1 where h: "handshake C c w = (r, w1)" by (metis surj_pair)
  from h assms have "trace w1 = trace w @ [EvRead c, EvWrite c (getpid C) (wr_ok w = [] \<or> hd (wr_ok w))]"
    by (auto simp: handshake_def recvNum_def bnd_def sys_write_def emit_def split: list.splits if_splits)
  with evolves_prefix[OF grow_this_zygote_after[OF h]] show ?thesis by simp
qed

theorem pid_reply_follows_version_witness:
  "nums (wA\<lparr>nums := [NFull 8]\<rparr>) = NFull (ZYGOTE_VERSION CA) # [] \<and>
   prefix [EvRead 4, EvWrite 4 4242 True]
     (trace (snd (grow_this_zygote CA 4 [] (wA\<lparr>nums := [NFull 8]\<rparr>))))"
  using pid_reply_follows_version[of "wA\<lparr>nums := [NFull 8]\<rparr>" CA "[]" 4 "[]"]
  by (simp add: wA_def CA_def)

text \<open>Claim C4. When the version that arrives differs from the constant, the child of a
  listening daemon reads nothing more and writes no process id: it writes the failure
  status, closes the channel and exits with that status.\<close>

theorem version_mismatch_closes:
  assumes "nums w = NFull v # ns" and "v \<noteq> ZYGOTE_VERSION C" and "exit_hooks w = [Cleanup]"
  shows "fst (zygote_child C c objv w) = Exited EXIT_FAILURE \<and>
         trace (snd (zygote_child C c objv w)) =
           trace w @ [EvRead c, EvWrite c EXIT_FAILURE (wr_ok w = [] \<or> hd (wr_ok w)),
                      EvClose c, EvExit EXIT_FAILURE]"
  using assms
  by (auto simp: zygote_child_def grow_this_zygote_def grow_body_def handshake_def recvNum_def
        bnd_def sys_write_def sys_close_def c_exit_def cleanup_def emit_def split: list.splits)

theorem version_mismatch_closes_witness:
  "nums (wA\<lparr>nums := [NFull 7]\<rparr>) = NFull 7 # [] \<and> 7 \<noteq> ZYGOTE_VERSION CA \<and>
   exit_hooks (wA\<lparr>nums := [NFull 7]\<rparr>) = [Cleanup] \<and>
   fst (zygote_child CA 4 [] (wA\<lparr>nums := [NFull 7]\<rparr>)) = Exited EXIT_FAILURE \<and>
   trace (snd (zygote_child CA 4 [] (wA\<lparr>nums := [NFull 7]\<rparr>))) =
     [EvRead 4, EvWrite 4 EXIT_FAILURE True, EvClose 4, EvExit EXIT_FAILURE]"
  using version_mismatch_closes[of "wA\<lparr>nums := [NFull 7]\<rparr>" 7 "[]" CA 4 "[]"]
  by (simp add: wA_def CA_def)

subsection \<open>The endpoint state and its cleanup\<close>

lemma evolves_run_hooks_cleared:
  assumes "\<And>c v ok. A (EvWrite c v ok)"
  shows "zygote_socket_fd w = -1 \<Longrightarrow> zygote_socket_path w = None \<Longrightarrow>
         evolves A w (run_hooks hs s w)"
proof (induction hs arbitrary: w)
  case Nil
  show ?case by (simp add: evolves_refl)
next
  case (Cons h hs)
  have r: "evolves A w (replyWithExitStatus s w)"
    by (intro evolves_reply assms)
  then have "zygote_socket_fd (replyWithExitStatus s w) = -1"
    and "zygote_socket_path (replyWithExitStatus s w) = None"
    using Cons.prems by (simp_all add: evolves_def)
  then have "evolves A (replyWithExitStatus s w) (run_hooks hs s (replyWithExitStatus s w))"
    by (rule Cons.IH)
  with r have 1: "evolves A w (run_hooks hs s (replyWithExitStatus s w))"
    by (rule evolves_trans)
  have 2: "evolves A w (run_hooks hs s w)"
    using Cons.prems by (rule Cons.IH)
  show ?case
    using 1 2 Cons.prems by (cases h) (simp_all add: cleanup_cleared)
qed

lemma evolves_c_exit_cleared:
  assumes "\<And>c v ok. A (EvWrite c v ok)" and "A (EvExit s)"
    and "zygote_socket_fd w = -1" and "zygote_socket_path w = None"
  shows "evolves A w (c_exit s w)"
proof -
  have "\<exists>e. A e \<and> hook_event e"
    using assms(2) by (intro exI[of _ "EvExit s"]) simp
  then have 1: "evolves A w (w\<lparr>exit_hooks := []\<rparr>)"
    by (auto simp: evolves_def)
  have 2: "evolves A (w\<lparr>exit_hooks := []\<rparr>) (run_hooks (exit_hooks w) s (w\<lparr>exit_hooks := []\<rparr>))"
    by (rule evolves_run_hooks_cleared) (simp_all add: assms)
  from evolves_trans[OF evolves_trans[OF 1 2] evolves_emit, of "EvExit s"] assms(2)
  show ?thesis by (simp add: c_exit_def)
qed

lemma zygote_child_evolves:
  assumes "\<And>e. \<not> ending e \<Longrightarrow> A e" and "A (EvClose c)" and "\<And>s. A (EvExit s)"
    and "w0 = w\<lparr>zygote_socket_fd := -1, zygote_socket_path := None\<rparr>"
  shows "evolves A w0 (snd (zygote_child C c objv w))"
proof -
  obtain r w1 where b: "grow_body C c objv w0 = (r, w1)" by (metis surj_pair)
  have 1: "evolves A w0 w1"
    using evolves_grow_body[of A w0 C c objv] assms(1) b by simp
  then have cl: "zygote_socket_fd w1 = -1" "zygote_socket_path w1 = None"
    by (simp_all add: evolves_def assms(4))
  have wr: "\<And>c v ok. A (EvWrite c v ok)"
    by (rule assms(1)) simp
  let ?w2 = "sys_close c (snd (sys_write c EXIT_FAILURE w1))"
  have 2: "evolves A w1 ?w2"
    by (intro evolves_trans[OF evolves_sys_write evolves_sys_close] wr assms(2))
  then have "zygote_socket_fd ?w2 = -1" "zygote_socket_path ?w2 = None"
    using cl by (simp_all add: evolves_def)
  then have 3: "evolves A ?w2 (c_exit EXIT_FAILURE ?w2)"
    by (intro evolves_c_exit_cleared wr assms(3))
  show ?thesis
    using 1 evolves_trans[OF 1 evolves_trans[OF 2 3]]
    by (cases r) (simp_all add: zygote_child_def grow_this_zygote_def b assms(4)[symmetric])
qed

text \<open>Claim C7. The child's branch of the fork sets the listening socket to -1 and the
  path to NULL before it calls \<^verbatim>\<open>grow_this_zygote\<close>, and nothing on the child's way changes
  them back: at the end they are still cleared, the cleanup routine does nothing, and
  the child's whole trace, its exit included, holds no unlink and no close other than
  that of the connection.\<close>

theorem child_disowns_endpoint:
  "zygote_child C c objv w =
     grow_this_zygote C c objv (w\<lparr>zygote_socket_fd := -1, zygote_socket_path := None\<rparr>) \<and>
   zygote_socket_fd (snd (zygote_child C c objv w)) = -1 \<and>
   zygote_socket_path (snd (zygote_child C c objv w)) = None \<and>
   cleanup (snd (zygote_child C c objv w)) = snd (zygote_child C c objv w) \<and>
   (\<exists>es. trace (c_exit s (snd (zygote_child C c objv w))) = trace w @ es \<and>
         (\<forall>path. EvUnlink path \<notin> set es) \<and> (\<forall>k. EvClose k \<in> set es \<longrightarrow> k = c))"
proof -
  let ?A = "\<lambda>e. (\<forall>path. e \<noteq> EvUnlink path) \<and> (\<forall>k. e = EvClose k \<longrightarrow> k = c)"
  let ?w0 = "w\<lparr>zygote_socket_fd := -1, zygote_socket_path := None\<rparr>"
  let ?w' = "snd (zygote_child C c objv w)"
  have A: "\<And>e. \<not> ending e \<Longrightarrow> ?A e"
    by (case_tac e) simp_all
  have 1: "evolves ?A ?w0 ?w'"
    by (rule zygote_child_evolves[OF A]) simp_all
  then have cl: "zygote_socket_fd ?w' = -1" "zygote_socket_path ?w' = None"
    by (simp_all add: evolves_def)
  have 2: "evolves ?A ?w' (c_exit s ?w')"
    by (rule evolves_c_exit_cleared) (simp_all add: cl)
  from evolves_trans[OF 1 2] have "\<exists>es. trace (c_exit s ?w') = trace w @ es \<and> (\<forall>e\<in>set es. ?A e)"
    by (simp add: evolves_def)
  then have "\<exists>es. trace (c_exit s ?w') = trace w @ es \<and>
         (\<forall>path. EvUnlink path \<notin> set es) \<and> (\<forall>k. EvClose k \<in> set es \<longrightarrow> k = c)"
    by blast
  moreover have "zygote_child C c objv w =
     grow_this_zygote C c objv (w\<lparr>zygote_socket_fd := -1, zygote_socket_path := None\<rparr>)"
    by (simp add: zygote_child_def)
  ultimately show ?thesis
    using cl by (simp add: cleanup_cleared)
qed

theorem child_disowns_endpoint_witness:
  "zygote_socket_fd wA = 3 \<and> zygote_socket_path wA = Some ''/tmp/z'' \<and>
   zygote_socket_fd (snd (zygote_child CA 4 [] wA)) = -1 \<and>
   zygote_socket_path (snd (zygote_child CA 4 [] wA)) = None \<and>
   trace (snd (zygote_child CA 4 [] wA)) = [EvRead 4, EvWrite 4 1 True, EvClose 4, EvExit 1]"
  using child_disowns_endpoint[of CA 4 "[]" wA 0]
  by (simp add: wA_def CA_def zygote_child_def grow_this_zygote_def grow_body_def handshake_def
        recvNum_def bnd_def sys_write_def sys_close_def c_exit_def cleanup_def emit_def
        lookup_def install_def EXIT_FAILURE_def)

text \<open>Claim C8, as stated, fails: \<^verbatim>\<open>cleanup\<close> never clears the path, so the second
  invocation unlinks again. The signal handler reaches that second invocation by itself:
  it calls \<^verbatim>\<open>cleanup\<close> and then \<^verbatim>\<open>exit\<close>, which runs the hook registered with \<^verbatim>\<open>atexit\<close>.\<close>

theorem cleanup_twice_counterexample:
  "wA = zygote_listening 3 ''/tmp/z''
          (wA\<lparr>zygote_socket_fd := -1, zygote_socket_path := None, exit_hooks := []\<rparr>) \<and>
   zygote_socket_path (cleanup wA) = Some ''/tmp/z'' \<and>
   trace (cleanup wA) = [EvClose 3, EvUnlink ''/tmp/z''] \<and>
   trace (cleanup (cleanup wA)) = [EvClose 3, EvUnlink ''/tmp/z'', EvClose 3, EvUnlink ''/tmp/z''] \<and>
   trace (cleanupBeforeExit 15 wA) =
     [EvClose 3, EvUnlink ''/tmp/z'', EvClose 3, EvUnlink ''/tmp/z'', EvExit 15]"
  by (simp add: wA_def zygote_listening_def cleanupBeforeExit_def c_exit_def cleanup_def
        sys_close_def emit_def lookup_def install_def)

text \<open>Claim C8, amended. The cleanup routine always returns and leaves the socket handle
  and the path reference as they were, so a second invocation repeats the close and the
  unlink of the first; nothing is attempted for a handle of -1 or a NULL path.\<close>

theorem cleanup_repeats:
  "zygote_socket_fd (cleanup w) = zygote_socket_fd w \<and>
   zygote_socket_path (cleanup w) = zygote_socket_path w \<and>
   trace (cleanup w) = trace w @ cleanup_events w \<and>
   trace (cleanup (cleanup w)) = trace w @ cleanup_events w @ cleanup_events w"
  by (simp add: cleanup_def cleanup_events_def sys_close_def emit_def Let_def split: option.splits)

theorem cleanup_repeats_witness:
  "cleanup_events wA = [EvClose 3, EvUnlink ''/tmp/z''] \<and>
   zygote_socket_path (cleanup wA) = Some ''/tmp/z'' \<and>
   trace (cleanup (cleanup wA)) = [EvClose 3, EvUnlink ''/tmp/z'', EvClose 3, EvUnlink ''/tmp/z'']"
  using cleanup_repeats[of wA] by (simp add: wA_def cleanup_events_def)

subsection \<open>The direct mode\<close>

text \<open>Claim C10. \<^verbatim>\<open>zygote_skip\<close> looks the entry point up in the daemon's own image and
  calls it with \<^verbatim>\<open>argc = 1\<close> and the one argument \<^verbatim>\<open>""\<close>; it returns what the entry point
  returns, and -1, without a call, when the image or the symbol is not found. Nothing it
  does depends on what a channel holds.\<close>

theorem zygote_skip_direct:
  "(\<forall>handle run. dlopen C None = Some handle \<longrightarrow> dlsym_run C handle = Some run \<longrightarrow>
      fst (zygote_skip C socket_path objv w) = run (int (length objv)) objv 1 [''''] \<and>
      trace (snd (zygote_skip C socket_path objv w)) =
        trace w @ [EvDlopen None, EvDlsym, EvRun (int (length objv)) objv 1 ['''']]) \<and>
   (\<forall>handle. dlopen C None = Some handle \<longrightarrow> dlsym_run C handle = None \<longrightarrow>
      fst (zygote_skip C socket_path objv w) = -1 \<and>
      trace (snd (zygote_skip C socket_path objv w)) = trace w @ [EvDlopen None, EvDlsym]) \<and>
   (dlopen C None = None \<longrightarrow>
      fst (zygote_skip C socket_path objv w) = -1 \<and>
      trace (snd (zygote_skip C socket_path objv w)) = trace w @ [EvDlopen None]) \<and>
   fst (zygote_skip C socket_path objv (w\<lparr>nums := ns, strs := ss, msgs := ms\<rparr>)) =
     fst (zygote_skip C socket_path objv w)"
  by (auto simp: zygote_skip_def load_unit_def emit_def split: option.splits)

theorem zygote_skip_direct_witness:
  "dlopen CB None = Some 0 \<and>
   dlsym_run CB 0 = Some (\<lambda>objc objv argc argv. objc + argc + int (length argv)) \<and>
   fst (zygote_skip CB ''/tmp/z'' [5, 6] wA) = 4 \<and>
   trace (snd (zygote_skip CB ''/tmp/z'' [5, 6] wA)) = [EvDlopen None, EvDlsym, EvRun 2 [5, 6] 1 ['''']]"
  using zygote_skip_direct[of CB "''/tmp/z''" "[5, 6]" wA "[]" "[]" "[]"]
  by (simp add: CB_def wA_def)

subsection \<open>The request on the wire\<close>

lemma int32_small: "int n < INT_MAX \<Longrightarrow> int32 n = int n"
  by (simp add: int32_def INT_MAX_def)

lemma wire_nums_append: "wire_nums (xs @ ys) = wire_nums xs @ wire_nums ys"
  by (induction xs rule: wire_nums.induct) simp_all

lemma wire_strs_append: "wire_strs (xs @ ys) = wire_strs xs @ wire_strs ys"
  by (induction xs rule: wire_strs.induct) simp_all

lemma wire_msgs_append: "wire_msgs f (xs @ ys) = wire_msgs f xs @ wire_msgs f ys"
  by (induction f xs rule: wire_msgs.induct) simp_all

lemma wire_sendStr:
  assumes "int (length s) < INT_MAX"
  shows "wire_nums (sendStr s) = [full_num s]" and "wire_strs (sendStr s) = [full_str s]"
    and "wire_msgs f (sendStr s) = []"
  using assms by (simp_all add: sendStr_def int32_small full_num_def full_str_def)

lemma wire_sendStrs:
  assumes "\<forall>s\<in>set ss. int (length s) < INT_MAX"
  shows "wire_nums (concat (map sendStr ss)) = map full_num ss"
    and "wire_strs (concat (map sendStr ss)) = map full_str ss"
    and "wire_msgs f (concat (map sendStr ss)) = []"
  using assms
  by (induction ss) (simp_all add: wire_nums_append wire_strs_append wire_msgs_append wire_sendStr)

lemma drop2_argv: "3 \<le> length argv \<Longrightarrow> drop 2 argv = argv ! 2 # drop 3 argv"
  by (metis Cons_nth_drop_Suc Suc_le_lessD eval_nat_numeral(3) numeral_2_eq_2)

lemma wire_request_tail:
  assumes "\<forall>s\<in>set (environ K) \<union> {cwd_buf K, argv ! 2} \<union> set (drop 3 argv). int (length s) < INT_MAX"
    and "3 \<le> length argv"
  shows "wire_nums (tl (request K argv)) =
           NFull (int (length (environ K))) # map full_num (environ K)
           @ full_num (cwd_buf K) # NFull (int (length (drop 3 argv)) + 1) # full_num (argv ! 2)
           # map full_num (drop 3 argv) @ []"
    and "wire_strs (tl (request K argv)) =
           map full_str (environ K) @ full_str (cwd_buf K) # full_str (argv ! 2)
           # map full_str (drop 3 argv) @ []"
    and "wire_msgs f (tl (request K argv)) =
           [MGot (Rights (f 2)), MGot (Rights (f 1)), MGot (Rights (f 0))]"
proof -
  from assms(1) have a: "int (length (argv ! 2)) < INT_MAX"
    and b: "\<forall>s\<in>set (drop 3 argv). int (length s) < INT_MAX"
    and c: "\<forall>s\<in>set (environ K). int (length s) < INT_MAX"
    and e: "int (length (cwd_buf K)) < INT_MAX"
    by simp_all
  from assms(2) have len: "int (length argv) - 2 = int (length argv - 3) + 1"
    by simp
  show "wire_nums (tl (request K argv)) =
           NFull (int (length (environ K))) # map full_num (environ K)
           @ full_num (cwd_buf K) # NFull (int (length (drop 3 argv)) + 1) # full_num (argv ! 2)
           # map full_num (drop 3 argv) @ []"
    by (simp add: request_def wire_nums_append wire_sendStr[OF a] wire_sendStr[OF e]
          wire_sendStrs[OF b] wire_sendStrs[OF c] len)
  show "wire_strs (tl (request K argv)) =
           map full_str (environ K) @ full_str (cwd_buf K) # full_str (argv ! 2)
           # map full_str (drop 3 argv) @ []"
    by (simp add: request_def wire_strs_append wire_sendStr[OF a] wire_sendStr[OF e]
          wire_sendStrs[OF b] wire_sendStrs[OF c])
  show "wire_msgs f (tl (request K argv)) =
           [MGot (Rights (f 2)), MGot (Rights (f 1)), MGot (Rights (f 0))]"
    by (simp add: request_def wire_msgs_append wire_sendStr[OF a] wire_sendStr[OF e]
          wire_sendStrs[OF b] wire_sendStrs[OF c])
qed

lemma wire_strs_request: "wire_strs (request K argv) = wire_strs (tl (request K argv))"
  by (simp add: request_def)

subsection \<open>Decoding what was delivered whole\<close>

lemma recvNum_full:
  "nums w = NFull v # ns \<Longrightarrow> recvNum c w = (Ok v, emit (EvRead c) (w\<lparr>nums := ns\<rparr>))"
  by (simp add: recvNum_def)

lemma recvStr_full:
  assumes "nums w = full_num s # ns" and "strs w = full_str s # st" and "int (length s) < INT_MAX"
  shows "\<exists>w'. recvStr c w = (Ok s, w') \<and> nums w' = ns \<and> strs w' = st"
  using assms
  by (simp add: recvStr_def recvNum_def bnd_def emit_def full_num_def full_str_def)

lemma recvStrs_full:
  assumes "\<forall>s\<in>set ss. int (length s) < INT_MAX"
  shows "nums w = map full_num ss @ ns \<Longrightarrow> strs w = map full_str ss @ st \<Longrightarrow>
         \<exists>w'. recvStrs (length ss) c w = (Ok ss, w') \<and> nums w' = ns \<and> strs w' = st"
  using assms
proof (induction ss arbitrary: w)
  case Nil
  then show ?case by simp
next
  case (Cons s ss)
  from Cons.prems obtain w1 where 1: "recvStr c w = (Ok s, w1)"
    and n1: "nums w1 = map full_num ss @ ns" and s1: "strs w1 = map full_str ss @ st"
    using recvStr_full[of w s "map full_num ss @ ns" "map full_str ss @ st" c] by auto
  from Cons.IH[OF n1 s1] Cons.prems(3) obtain w2 where
    2: "recvStrs (length ss) c w1 = (Ok ss, w2)" and "nums w2 = ns" and "strs w2 = st"
    by auto
  then show ?case
    by (simp add: 1 bnd_def)
qed

lemma recv_request_full:
  assumes n: "nums w = NFull (int (length env)) # map full_num env
                @ full_num cwd # NFull (int (length args) + 1) # full_num code # map full_num args @ ns"
    and s: "strs w = map full_str env @ full_str cwd # full_str code # map full_str args @ st"
    and l: "\<forall>s\<in>set env \<union> {cwd, code} \<union> set args. int (length s) < INT_MAX"
    and e: "int (length env) < INT_MAX"
  shows "\<exists>w'. recv_request c w = (Ok (int (length args) + 1, code, args), w') \<and>
              nums w' = ns \<and> strs w' = st"
proof -
  obtain w0 where 0: "recvNum c w = (Ok (int (length env)), w0)"
    and n0: "nums w0 = map full_num env
                @ full_num cwd # NFull (int (length args) + 1) # full_num code # map full_num args @ ns"
    and s0: "strs w0 = map full_str env @ full_str cwd # full_str code # map full_str args @ st"
    using n s by (simp add: recvNum_def emit_def)
  from l have le: "\<forall>s\<in>set env. int (length s) < INT_MAX"
    and la: "\<forall>s\<in>set args. int (length s) < INT_MAX"
    and lc: "int (length cwd) < INT_MAX" and ld: "int (length code) < INT_MAX"
    by simp_all
  from recvStrs_full[OF le n0 s0] obtain w1 where 1: "recvStrs (length env) c w0 = (Ok env, w1)"
    and n1: "nums w1 = full_num cwd # NFull (int (length args) + 1) # full_num code # map full_num args @ ns"
    and s1: "strs w1 = full_str cwd # full_str code # map full_str args @ st"
    by blast
  have "\<exists>w2. recvStr c (emit (EvEnviron env) w1) = (Ok cwd, w2) \<and>
      nums w2 = NFull (int (length args) + 1) # full_num code # map full_num args @ ns \<and>
      strs w2 = full_str code # map full_str args @ st"
    using lc n1 s1 by (intro recvStr_full) (simp_all add: emit_def)
  then obtain w2 where 2: "recvStr c (emit (EvEnviron env) w1) = (Ok cwd, w2)"
    and n2: "nums w2 = NFull (int (length args) + 1) # full_num code # map full_num args @ ns"
    and s2: "strs w2 = full_str code # map full_str args @ st"
    by blast
  obtain w3 where 3: "recvNum c (emit (EvChdir cwd) w2) = (Ok (int (length args) + 1), w3)"
    and n3: "nums w3 = full_num code # map full_num args @ ns"
    and s3: "strs w3 = full_str code # map full_str args @ st"
    using n2 s2 by (simp add: recvNum_def emit_def)
  from recvStr_full[OF n3 s3 ld] obtain w4 where 4: "recvStr c w3 = (Ok code, w4)"
    and n4: "nums w4 = map full_num args @ ns" and s4: "strs w4 = map full_str args @ st"
    by blast
  from recvStrs_full[OF la n4 s4] obtain w5 where 5: "recvStrs (length args) c w4 = (Ok args, w5)"
    and "nums w5 = ns" and "strs w5 = st"
    by blast
  with e show ?thesis
    by (simp add: recv_request_def bnd_def 0 1 2 3 4)
qed

text \<open>Claim C5, as stated, fails: with one argument after the locator the count that
  travels is two, and one string follows the locator.\<close>

theorem argv_count_counterexample:
  "fst (recv_request 4 (deliver filesA (tl (request KA argvA)) wA)) = Ok (2, ''unit.so'', [''a''])
   \<and> drop 3 argvA = [''a''] \<and> (2 :: int) \<noteq> int (length (drop 3 argvA))"
  by code_simp

text \<open>Claim C5, amended. The count that the client sends is the number of its arguments
  from the locator on, the locator included; after the locator exactly that count less
  one strings follow, and the daemon decodes the count, the locator as element 0 and
  those strings as the other elements. (Every string is shorter than \<^verbatim>\<open>INT_MAX\<close>; the
  daemon decodes when the environment has fewer than \<^verbatim>\<open>INT_MAX\<close> entries, the count at
  which its \<^verbatim>\<open>num + 1\<close> overflows.)\<close>

theorem argv_count_includes_locator:
  assumes "3 \<le> length argv"
    and "\<forall>s\<in>set (environ K) \<union> {cwd_buf K} \<union> set (drop 2 argv). int (length s) < INT_MAX"
  shows "(int (length (environ K)) < INT_MAX \<longrightarrow>
            fst (recv_request c (deliver files (tl (request K argv)) w))
              = Ok (int (length (drop 2 argv)), argv ! 2, drop 3 argv))
         \<and> wire_strs (request K argv) = map full_str (environ K @ [cwd_buf K, argv ! 2] @ drop 3 argv)
         \<and> drop 2 argv = argv ! 2 # drop 3 argv"
proof -
  note d = drop2_argv[OF assms(1)]
  from assms(2)
  have l: "\<forall>s\<in>set (environ K) \<union> {cwd_buf K, argv ! 2} \<union> set (drop 3 argv). int (length s) < INT_MAX"
    unfolding d by simp
  note t = wire_request_tail[OF l assms(1)]
  have n: "nums (deliver files (tl (request K argv)) w) =
           NFull (int (length (environ K))) # map full_num (environ K)
           @ full_num (cwd_buf K) # NFull (int (length (drop 3 argv)) + 1) # full_num (argv ! 2)
           # map full_num (drop 3 argv) @ []"
    unfolding deliver_def t by simp
  have s: "strs (deliver files (tl (request K argv)) w) =
           map full_str (environ K) @ full_str (cwd_buf K) # full_str (argv ! 2)
           # map full_str (drop 3 argv) @ []"
    unfolding deliver_def t by simp
  have 1: "int (length (environ K)) < INT_MAX \<longrightarrow>
           fst (recv_request c (deliver files (tl (request K argv)) w))
             = Ok (int (length (drop 2 argv)), argv ! 2, drop 3 argv)"
  proof
    assume e: "int (length (environ K)) < INT_MAX"
    from recv_request_full[OF n s l e]
    have r: "fst (recv_request c (deliver files (tl (request K argv)) w))
             = Ok (int (length (drop 3 argv)) + 1, argv ! 2, drop 3 argv)"
      by (metis fst_conv)
    have "int (length (drop 2 argv)) = int (length (drop 3 argv)) + 1"
      unfolding d by simp
    with r show "fst (recv_request c (deliver files (tl (request K argv)) w))
             = Ok (int (length (drop 2 argv)), argv ! 2, drop 3 argv)"
      by (simp only:)
  qed
  have 2: "wire_strs (request K argv) = map full_str (environ K @ [cwd_buf K, argv ! 2] @ drop 3 argv)"
    unfolding wire_strs_request t by simp
  from 1 2 d show ?thesis
    by (intro conjI)
qed

theorem argv_count_includes_locator_witness:
  "3 \<le> length argvA \<and> length (cwd_buf KA) = 1 \<and> length (environ KA) = 1 \<and>
   map length (environ KA) = [3] \<and> map length (drop 2 argvA) = [7, 1] \<and>
   fst (recv_request 4 (deliver filesA (tl (request KA argvA)) wA)) = Ok (2, ''unit.so'', [''a''])"
  using argv_count_includes_locator[of argvA KA 4 filesA wA]
  by (simp add: argvA_def KA_def INT_MAX_def)

subsection \<open>The client's exit status\<close>

text \<open>What \<^verbatim>\<open>main\<close> of the client returns: 1, before any system call, with fewer than
  three arguments; -1 when the connection or a write fails or the read returns -1;
  otherwise the integer that its one read delivers.\<close>

lemma grow_main_usage: "length argv < 3 \<Longrightarrow> grow_main K argv = (1, [])"
  by (simp add: grow_main_def)

lemma grow_main_status:
  assumes "3 \<le> length argv"
  shows "fst (grow_main K argv) =
     (if fst (open_unix_fd K (argv ! 1)) = -1 then -1
      else if \<not> fst (send_all (fst (open_unix_fd K (argv ! 1))) (request K argv) (send_ok K)) then -1
      else (case reply_rd K of NErr \<Rightarrow> -1 | NShort num \<Rightarrow> num | NFull num \<Rightarrow> num))"
  using assms
  by (auto simp: grow_main_def split: prod.splits bool.splits num_rd.splits)

text \<open>Claim C6 fails on the code. The daemon child writes its process id on the channel
  before it reads the rest of the request, and the unit's result after it; the client
  reads one integer only, the first on the stream. Here the unit returns 7, the child
  has the process id 4242, and the client exits with 4242, under either build of the
  daemon. (The 1 is what \<^verbatim>\<open>num\<close> holds before the read, the length of the last string
  sent.)\<close>

theorem client_exits_with_pid:
  "(case zygote_child CA 4 [] (deliver filesA (request KA argvA) wA) of (out, w') \<Rightarrow>
      out = Returned 7 \<and> written 4 (trace w') = [4242, 7] \<and>
      fst (grow_main (KA\<lparr>reply_rd := first_reply 1 (written 4 (trace w'))\<rparr>) argvA) = 4242)
   \<and>
   (case zygote_child (CA\<lparr>HAS_ON_EXIT := True\<rparr>) 4 [] (deliver filesA (request KA argvA) wA)
    of (out, w') \<Rightarrow>
      out = Returned 7 \<and> written 4 (trace (c_exit 7 w')) = [4242, 7] \<and>
      fst (grow_main (KA\<lparr>reply_rd := first_reply 1 (written 4 (trace (c_exit 7 w')))\<rparr>) argvA) = 4242)"
  by code_simp

subsection \<open>The descriptor table\<close>

lemma lookup_install: "lookup (install t k v) j = (if j = int k then v else lookup t j)"
  by (auto simp: lookup_def install_def nth_append nth_list_update)

lemma lookup_int: "lookup t (int j) = (if j < length t then t ! j else None)"
  by (simp add: lookup_def)

lemma lowest_free_None: "lookup t (int (lowest_free t)) = None"
  unfolding lookup_int by (induction t rule: lowest_free.induct) (auto split: if_splits)

lemma lowest_free_least: "lookup t (int j) = None \<Longrightarrow> lowest_free t \<le> j"
  unfolding lookup_int
proof (induction t arbitrary: j rule: lowest_free.induct)
  case 1
  then show ?case by simp
next
  case (2 t)
  then show ?case by simp
next
  case (3 f t)
  then show ?case
    by (cases j) (auto split: if_splits)
qed

lemma lowest_free_above:
  assumes "lookup t 0 \<noteq> None" and "lookup t 1 \<noteq> None" and "lookup t 2 \<noteq> None"
  shows "3 \<le> lowest_free t"
proof (rule ccontr)
  assume "\<not> 3 \<le> lowest_free t"
  then have "lowest_free t = 0 \<or> lowest_free t = 1 \<or> lowest_free t = 2"
    by arith
  with lowest_free_None[of t] assms show False
    by (elim disjE) simp_all
qed

lemma lowest_free_occupied: "lookup t j \<noteq> None \<Longrightarrow> j \<noteq> int (lowest_free t)"
  using lowest_free_None[of t] by auto


subsection \<open>Receiving and installing the descriptors\<close>

lemma read_fd_rights:
  assumes "msgs w = MGot (Rights f) # ms"
  shows "read_fd c r w =
     ((1, int (lowest_free (fdtab w))),
      emit (EvRecvmsg c)
        (w\<lparr>msgs := ms, fdtab := install (fdtab w) (lowest_free (fdtab w)) (Some f)\<rparr>))"
  using assms by (simp add: read_fd_def)

text \<open>What one \<^verbatim>\<open>read_fd\<close> does to the table: a slot that was open stays as it was.\<close>

lemma read_fd_keeps:
  assumes "read_fd c r w = ((n, r'), w')"
  shows "trace w' = trace w @ [EvRecvmsg c]"
    and "lookup (fdtab w) j \<noteq> None \<Longrightarrow> lookup (fdtab w') j = lookup (fdtab w) j"
  using assms lowest_free_occupied[of "fdtab w" j]
  by (auto simp: read_fd_def emit_def lookup_install split: list.splits msg_rd.splits ctl.splits)

lemma sys_dup2_ok:
  assumes "sys_dup2 old new w = (True, w')"
  shows "trace w' = trace w @ [EvDup2 old new True]"
    and "lookup (fdtab w) old \<noteq> None"
    and "\<And>j. lookup (fdtab w') j = (if j = int (nat new) then lookup (fdtab w) old else lookup (fdtab w) j)"
  using assms
  by (auto simp: sys_dup2_def emit_def lookup_install split: option.splits)

lemma sys_dup2_result:
  "fst (sys_dup2 old new w) \<longleftrightarrow> lookup (fdtab w) old \<noteq> None"
  by (simp add: sys_dup2_def split: option.splits)


lemma dup_fds_ok:
  assumes "dup_fds (f0, f1, f2) w = (Ok (), w')"
  shows "\<exists>w1 w2. sys_dup2 f0 0 w = (True, w1) \<and> sys_dup2 f1 1 w1 = (True, w2) \<and>
           sys_dup2 f2 2 w2 = (True, w')"
  using assms by (auto simp: dup_fds_def split: prod.splits if_splits)

lemma dup_fds_trace:
  assumes "dup_fds (f0, f1, f2) w = (Ok (), w')"
  shows "trace w' = trace w @ [EvDup2 f0 0 True, EvDup2 f1 1 True, EvDup2 f2 2 True]"
proof -
  from dup_fds_ok[OF assms] obtain w1 w2 where
    "sys_dup2 f0 0 w = (True, w1)" "sys_dup2 f1 1 w1 = (True, w2)" "sys_dup2 f2 2 w2 = (True, w')"
    by blast
  then show ?thesis
    by (simp add: sys_dup2_ok(1))
qed

text \<open>Every descriptor handed to \<^verbatim>\<open>dup2\<close> is still open after the three calls.\<close>

lemma dup_fds_open:
  assumes "dup_fds (f0, f1, f2) w = (Ok (), w')"
  shows "lookup (fdtab w') f0 \<noteq> None \<and> lookup (fdtab w') f1 \<noteq> None \<and> lookup (fdtab w') f2 \<noteq> None"
proof -
  from dup_fds_ok[OF assms] obtain w1 w2 where
    a: "sys_dup2 f0 0 w = (True, w1)" and b: "sys_dup2 f1 1 w1 = (True, w2)"
    and c: "sys_dup2 f2 2 w2 = (True, w')"
    by blast
  note A = sys_dup2_ok[OF a] and B = sys_dup2_ok[OF b] and C = sys_dup2_ok[OF c]
  have 0: "lookup (fdtab w1) f0 \<noteq> None" using A(2) by (simp add: A(3))
  have 1: "lookup (fdtab w2) f0 \<noteq> None" using 0 B(2) by (simp add: B(3))
  have 2: "lookup (fdtab w2) f1 \<noteq> None" using B(2) by (simp add: B(3))
  show ?thesis using 1 2 C(2) by (simp add: C(3))
qed

text \<open>When the three descriptors sit above the standard slots, the slots end up with
  what the descriptors refer to.\<close>

lemma dup_fds_table:
  assumes "dup_fds (f0, f1, f2) w = (Ok (), w')" and "2 < f0" and "2 < f1" and "2 < f2"
  shows "lookup (fdtab w') 0 = lookup (fdtab w) f0" and "lookup (fdtab w') 1 = lookup (fdtab w) f1"
    and "lookup (fdtab w') 2 = lookup (fdtab w) f2"
proof -
  from dup_fds_ok[OF assms(1)] obtain w1 w2 where
    a: "sys_dup2 f0 0 w = (True, w1)" and b: "sys_dup2 f1 1 w1 = (True, w2)"
    and c: "sys_dup2 f2 2 w2 = (True, w')"
    by blast
  note A = sys_dup2_ok(3)[OF a] and B = sys_dup2_ok(3)[OF b] and C = sys_dup2_ok(3)[OF c]
  show "lookup (fdtab w') 0 = lookup (fdtab w) f0" by (simp add: A B C)
  show "lookup (fdtab w') 1 = lookup (fdtab w) f1" using assms(3) by (simp add: A B C)
  show "lookup (fdtab w') 2 = lookup (fdtab w) f2" using assms(3,4) by (simp add: A B C)
qed

lemma recv_fds_trace:
  assumes "recv_fds c fds w = (Ok fds', w')"
  shows "trace w' = trace w @ [EvRecvmsg c, EvRecvmsg c, EvRecvmsg c]"
proof -
  obtain f0 f1 f2 where fds: "fds = (f0, f1, f2)" by (cases fds) auto
  obtain n2 g2 w2 where a: "read_fd c f2 w = ((n2, g2), w2)" by (metis surj_pair)
  obtain n1 g1 w1 where b: "read_fd c f1 w2 = ((n1, g1), w1)" by (metis surj_pair)
  obtain n0 g0 w0 where c: "read_fd c f0 w1 = ((n0, g0), w0)" by (metis surj_pair)
  from assms have "w' = w0"
    by (simp add: recv_fds_def fds a b c split: if_splits)
  then show ?thesis
    by (simp add: read_fd_keeps(1)[OF a] read_fd_keeps(1)[OF b] read_fd_keeps(1)[OF c])
qed

lemma recv_fds_rights:
  assumes m: "msgs w = MGot (Rights a) # MGot (Rights b) # MGot (Rights d) # ms"
    and std: "lookup (fdtab w) 0 \<noteq> None" "lookup (fdtab w) 1 \<noteq> None" "lookup (fdtab w) 2 \<noteq> None"
  shows "\<exists>k1 k2 k3 w'. recv_fds c fds w = (Ok (int k3, int k2, int k1), w') \<and>
           3 \<le> k1 \<and> 3 \<le> k2 \<and> 3 \<le> k3 \<and>
           lookup (fdtab w') (int k1) = Some a \<and> lookup (fdtab w') (int k2) = Some b \<and>
           lookup (fdtab w') (int k3) = Some d"
proof -
  obtain f0 f1 f2 where fds: "fds = (f0, f1, f2)" by (cases fds) auto
  let ?T = "fdtab w"
  let ?k1 = "lowest_free ?T"
  let ?T1 = "install ?T ?k1 (Some a)"
  let ?k2 = "lowest_free ?T1"
  let ?T2 = "install ?T1 ?k2 (Some b)"
  let ?k3 = "lowest_free ?T2"
  let ?T3 = "install ?T2 ?k3 (Some d)"
  let ?w1 = "emit (EvRecvmsg c) (w\<lparr>msgs := MGot (Rights b) # MGot (Rights d) # ms, fdtab := ?T1\<rparr>)"
  let ?w2 = "emit (EvRecvmsg c) (?w1\<lparr>msgs := MGot (Rights d) # ms, fdtab := ?T2\<rparr>)"
  let ?w3 = "emit (EvRecvmsg c) (?w2\<lparr>msgs := ms, fdtab := ?T3\<rparr>)"
  have r1: "read_fd c f2 w = ((1, int ?k1), ?w1)"
    using m by (simp add: read_fd_rights)
  have r2: "read_fd c f1 ?w1 = ((1, int ?k2), ?w2)"
    by (simp add: read_fd_rights[where f=b and ms="MGot (Rights d) # ms"] emit_def)
  have r3: "read_fd c f0 ?w2 = ((1, int ?k3), ?w3)"
    by (simp add: read_fd_rights[where f=d and ms=ms] emit_def)
  have res: "recv_fds c fds w = (Ok (int ?k3, int ?k2, int ?k1), ?w3)"
    by (simp add: recv_fds_def fds r1 r2 r3)
  have k1: "3 \<le> ?k1"
    using std by (rule lowest_free_above)
  have k2: "3 \<le> ?k2"
    using std k1 by (intro lowest_free_above) (simp_all add: lookup_install)
  have k3: "3 \<le> ?k3"
    using std k1 k2 by (intro lowest_free_above) (simp_all add: lookup_install)
  have n21: "?k2 \<noteq> ?k1"
    using lowest_free_occupied[of ?T1 "int ?k1"] by (simp add: lookup_install)
  have n31: "?k3 \<noteq> ?k1"
    using lowest_free_occupied[of ?T2 "int ?k1"] n21 by (simp add: lookup_install)
  have n32: "?k3 \<noteq> ?k2"
    using lowest_free_occupied[of ?T2 "int ?k2"] by (simp add: lookup_install)
  have "fdtab ?w3 = ?T3"
    by (simp add: emit_def)
  then have "lookup (fdtab ?w3) (int ?k1) = Some a" "lookup (fdtab ?w3) (int ?k2) = Some b"
    "lookup (fdtab ?w3) (int ?k3) = Some d"
    using n21 n31 n32 by (simp_all add: lookup_install)
  with res k1 k2 k3 show ?thesis
    by blast
qed


subsection \<open>Up to the call of the entry point\<close>

lemma bnd_Ok:
  assumes "bnd m f = (Ok y, w')"
  shows "\<exists>x w1. m = (Ok x, w1) \<and> f x w1 = (Ok y, w')"
  using assms by (cases m, cases "fst m") (auto simp: bnd_def)

lemma receive_Ok:
  assumes "receive C c w = (Ok (run, argc, argv), w')"
  shows "\<exists>cp args w2 w3 fds w4.
           recv_request c w = (Ok (argc, cp, args), w2) \<and>
           load_unit C (Some cp) w2 = (Ok run, w3) \<and>
           recv_fds c (fds_init C) w3 = (Ok fds, w4) \<and>
           dup_fds fds w4 = (Ok (), w') \<and> argv = cp # args"
proof -
  from assms[unfolded receive_def] obtain x w2 where
    1: "recv_request c w = (Ok x, w2)"
    and 2: "(case x of (argc, code_path, args) \<Rightarrow> \<lambda>w.
       bnd (load_unit C (Some code_path) w) (\<lambda>run w.
       bnd (recv_fds c (fds_init C) w) (\<lambda>fds w.
       bnd (dup_fds fds w) (\<lambda>_ w.
       (Ok (run, argc, code_path # args), w))))) w2 = (Ok (run, argc, argv), w')"
    by (blast dest: bnd_Ok)
  obtain argc' cp args where x: "x = (argc', cp, args)" by (cases x) auto
  from 2[unfolded x] obtain run' w3 where
    3: "load_unit C (Some cp) w2 = (Ok run', w3)"
    and 4: "bnd (recv_fds c (fds_init C) w3) (\<lambda>fds w.
       bnd (dup_fds fds w) (\<lambda>_ w.
       (Ok (run', argc', cp # args), w))) = (Ok (run, argc, argv), w')"
    by (auto dest: bnd_Ok)
  from 4 obtain fds w4 where
    5: "recv_fds c (fds_init C) w3 = (Ok fds, w4)"
    and 6: "bnd (dup_fds fds w4) (\<lambda>_ w. (Ok (run', argc', cp # args), w)) = (Ok (run, argc, argv), w')"
    by (blast dest: bnd_Ok)
  from 6 obtain u w5 where
    7: "dup_fds fds w4 = (Ok u, w5)" and 8: "(Ok (run', argc', cp # args), w5) = (Ok (run, argc, argv), w')"
    by (blast dest: bnd_Ok)
  from 8 have "run' = run" "argc' = argc" "argv = cp # args" "w5 = w'"
    by simp_all
  with 1 3 5 7 x show ?thesis
    by (intro exI[of _ cp] exI[of _ args] exI[of _ w2] exI[of _ w3] exI[of _ fds] exI[of _ w4])
       simp
qed

text \<open>The events of \<^verbatim>\<open>run_unit\<close>: the call comes first, and the table is left alone.\<close>

lemma run_unit_shape:
  "\<exists>post. trace (snd (run_unit C c objv run argc argv w)) =
             trace w @ EvRun (int (length objv)) objv argc argv # post \<and>
          (\<forall>e\<in>set post. \<not> fd_event e \<and> (\<forall>a b c d. e \<noteq> EvRun a b c d)) \<and>
          fdtab (snd (run_unit C c objv run argc argv w)) = fdtab w"
  by (auto simp: run_unit_def Let_def emit_def sys_write_def split: list.splits)

text \<open>If the entry point was called, the handshake and everything between it and the
  call succeeded.\<close>

lemma grow_body_call:
  assumes gb: "grow_body C c objv w = (r, w')" and tr: "trace w' = trace w @ es"
    and e: "e \<in> set es" and ce: "call_event e"
  shows "\<exists>w1 run argc argv w2. handshake C c w = (Ok (), w1) \<and>
           receive C c w1 = (Ok (run, argc, argv), w2) \<and>
           run_unit C c objv run argc argv w2 = (r, w')"
proof -
  let ?Q = "\<lambda>e. \<not> call_event e"
  obtain r1 w1 where h: "handshake C c w = (r1, w1)" by (metis surj_pair)
  have e1: "evolves ?Q w w1"
    using evolves_handshake[where A="?Q" and w=w and C=C and c=c] h by simp
  obtain r2 w2 where rc: "receive C c w1 = (r2, w2)" by (metis surj_pair)
  have e2: "evolves ?Q w1 w2"
    using evolves_receive[where A="?Q" and w=w1 and C=C and c=c] rc by simp
  have no: "\<And>v. evolves ?Q w v \<Longrightarrow> w' \<noteq> v"
  proof
    fix v assume "evolves ?Q w v" and "w' = v"
    then obtain es' where "trace w' = trace w @ es'" and "\<forall>e\<in>set es'. \<not> call_event e"
      by (auto simp: evolves_def)
    with tr e ce show False by auto
  qed
  show ?thesis
  proof (cases r1)
    case (Ok u)
    show ?thesis
    proof (cases r2)
      case (Ok x)
      obtain run argc argv where x: "x = (run, argc, argv)" by (cases x) auto
      from gb h rc \<open>r1 = Ok u\<close> Ok x show ?thesis
        by (simp add: grow_body_def bnd_def)
    next
      case Fail
      with gb h rc \<open>r1 = Ok u\<close> have "w' = w2" by (simp add: grow_body_def bnd_def)
      with no[OF evolves_trans[OF e1 e2]] show ?thesis by simp
    next
      case Undef
      with gb h rc \<open>r1 = Ok u\<close> have "w' = w2" by (simp add: grow_body_def bnd_def)
      with no[OF evolves_trans[OF e1 e2]] show ?thesis by simp
    qed
  next
    case Fail
    with gb h have "w' = w1" by (simp add: grow_body_def bnd_def)
    with no[OF e1] show ?thesis by simp
  next
    case Undef
    with gb h have "w' = w1" by (simp add: grow_body_def bnd_def)
    with no[OF e1] show ?thesis by simp
  qed
qed

text \<open>The events and the table from the start of the body to the call.\<close>

lemma grow_body_until_call:
  assumes gb: "grow_body C c objv w = (r, w')" and tr: "trace w' = trace w @ es"
    and e: "EvRun objc ov argc argv \<in> set es"
  shows "\<exists>w3 fds w4 w5 pre post.
           fdtab w3 = fdtab w \<and> msgs w3 = msgs w \<and>
           recv_fds c (fds_init C) w3 = (Ok fds, w4) \<and> dup_fds fds w4 = (Ok (), w5) \<and>
           fdtab w' = fdtab w5 \<and> (\<forall>e\<in>set pre. \<not> fd_event e) \<and>
           es = pre @ [EvRecvmsg c, EvRecvmsg c, EvRecvmsg c, EvDup2 (fst fds) 0 True,
                       EvDup2 (fst (snd fds)) 1 True, EvDup2 (snd (snd fds)) 2 True,
                       EvRun objc ov argc argv] @ post"
proof -
  let ?Q = "\<lambda>e. \<not> call_event e \<and> \<not> fd_event e"
  from grow_body_call[OF gb tr e] obtain w1 run argc' argv' w2 where
    h: "handshake C c w = (Ok (), w1)" and rc: "receive C c w1 = (Ok (run, argc', argv'), w2)"
    and ru: "run_unit C c objv run argc' argv' w2 = (r, w')"
    by auto
  from receive_Ok[OF rc] obtain cp args v2 w3 fds w4 where
    rr: "recv_request c w1 = (Ok (argc', cp, args), v2)"
    and lu: "load_unit C (Some cp) v2 = (Ok run, w3)"
    and rf: "recv_fds c (fds_init C) w3 = (Ok fds, w4)"
    and df: "dup_fds fds w4 = (Ok (), w2)"
    by blast
  have "evolves ?Q w w1"
    using evolves_handshake[where A="?Q" and w=w and C=C and c=c] h by simp
  moreover have "evolves ?Q w1 v2"
    using evolves_recv_request[where A="?Q" and c=c and w=w1] rr by simp
  moreover have "evolves ?Q v2 w3"
    using evolves_load_unit[where A="?Q" and p="Some cp" and w=v2 and C=C] lu by simp
  ultimately have q: "evolves ?Q w w3"
    by (blast intro: evolves_trans)
  then obtain pre where p: "trace w3 = trace w @ pre" and pq: "\<forall>e\<in>set pre. ?Q e"
    and ft: "fdtab w3 = fdtab w" and ms: "msgs w3 = msgs w"
    by (auto simp: evolves_def)
  obtain f0 f1 f2 where fds: "fds = (f0, f1, f2)" by (cases fds) auto
  from run_unit_shape[of C c objv run argc' argv' w2] ru obtain post where
    t5: "trace w' = trace w2 @ EvRun (int (length objv)) objv argc' argv' # post"
    and po: "\<forall>e\<in>set post. \<forall>a b c d. e \<noteq> EvRun a b c d"
    and f5: "fdtab w' = fdtab w2"
    by auto
  have es: "es = pre @ [EvRecvmsg c, EvRecvmsg c, EvRecvmsg c, EvDup2 f0 0 True,
                       EvDup2 f1 1 True, EvDup2 f2 2 True,
                       EvRun (int (length objv)) objv argc' argv'] @ post"
    using tr t5 p recv_fds_trace[OF rf] dup_fds_trace[OF df[unfolded fds]] by simp
  have "EvRun objc ov argc argv = EvRun (int (length objv)) objv argc' argv'"
    using e pq po unfolding es by auto
  with es fds ft ms rf df f5 pq show ?thesis
    by (intro exI[of _ w3] exI[of _ fds] exI[of _ w4] exI[of _ w2] exI[of _ pre] exI[of _ post]) simp
qed


lemma wire_msgs_sendStr: "wire_msgs f (sendStr s) = []"
  by (simp add: sendStr_def Let_def)

lemma wire_msgs_sendStrs: "wire_msgs f (concat (map sendStr ss)) = []"
  by (induction ss) (simp_all add: wire_msgs_append wire_msgs_sendStr)

lemma wire_msgs_request:
  "wire_msgs f (request K argv) = [MGot (Rights (f 2)), MGot (Rights (f 1)), MGot (Rights (f 0))]"
  by (simp add: request_def wire_msgs_append wire_msgs_sendStr wire_msgs_sendStrs)

subsection \<open>The standard streams of the unit\<close>

text \<open>Claim C2. The client sends its descriptors 2, 1, 0 in this order. When they arrive,
  in a child whose slots 0 to 2 are open, and the entry point is called, then before the
  call the child has received three descriptor messages, the first into \<^verbatim>\<open>fds[2]\<close>, the
  second into \<^verbatim>\<open>fds[1]\<close>, the third into \<^verbatim>\<open>fds[0]\<close>, and has duplicated \<^verbatim>\<open>fds[i]\<close> onto
  slot \<open>i\<close>; at the call slot 2 refers to the client's standard error, slot 1 to its
  standard output and slot 0 to its standard input.\<close>

theorem stdio_installed_before_run:
  assumes m: "msgs w = wire_msgs files (request K argv0)"
    and s0: "lookup (fdtab w) 0 \<noteq> None" and s1: "lookup (fdtab w) 1 \<noteq> None"
    and s2: "lookup (fdtab w) 2 \<noteq> None"
    and tr: "trace (snd (grow_body C c objv w)) = trace w @ es"
    and e: "EvRun objc ov argc argv \<in> set es"
  shows "msgs w = [MGot (Rights (files 2)), MGot (Rights (files 1)), MGot (Rights (files 0))] \<and>
         (\<exists>pre f0 f1 f2 post.
            es = pre @ [EvRecvmsg c, EvRecvmsg c, EvRecvmsg c, EvDup2 f0 0 True,
                        EvDup2 f1 1 True, EvDup2 f2 2 True, EvRun objc ov argc argv] @ post \<and>
            (\<forall>e\<in>set pre. \<not> fd_event e)) \<and>
         lookup (fdtab (snd (grow_body C c objv w))) 2 = Some (files 2) \<and>
         lookup (fdtab (snd (grow_body C c objv w))) 1 = Some (files 1) \<and>
         lookup (fdtab (snd (grow_body C c objv w))) 0 = Some (files 0)"
proof -
  obtain r w' where gb: "grow_body C c objv w = (r, w')" by (metis surj_pair)
  from m have m': "msgs w = MGot (Rights (files 2)) # MGot (Rights (files 1)) # MGot (Rights (files 0)) # []"
    by (simp add: wire_msgs_request)
  from grow_body_until_call[OF gb _ e] tr gb obtain w3 fds w4 w5 pre post where
    ft: "fdtab w3 = fdtab w" and ms: "msgs w3 = msgs w"
    and rf: "recv_fds c (fds_init C) w3 = (Ok fds, w4)" and df: "dup_fds fds w4 = (Ok (), w5)"
    and f5: "fdtab w' = fdtab w5" and pq: "\<forall>e\<in>set pre. \<not> fd_event e"
    and es: "es = pre @ [EvRecvmsg c, EvRecvmsg c, EvRecvmsg c, EvDup2 (fst fds) 0 True,
                       EvDup2 (fst (snd fds)) 1 True, EvDup2 (snd (snd fds)) 2 True,
                       EvRun objc ov argc argv] @ post"
    by auto
  from recv_fds_rights[of w3 "files 2" "files 1" "files 0" "[]" c "fds_init C"] m' ms ft s0 s1 s2 rf
  obtain k1 k2 k3 where fds: "fds = (int k3, int k2, int k1)"
    and k: "3 \<le> k1" "3 \<le> k2" "3 \<le> k3"
    and l: "lookup (fdtab w4) (int k1) = Some (files 2)" "lookup (fdtab w4) (int k2) = Some (files 1)"
      "lookup (fdtab w4) (int k3) = Some (files 0)"
    by auto
  from k have "2 < int k3" "2 < int k2" "2 < int k1"
    by simp_all
  from dup_fds_table[OF df[unfolded fds] this] l f5 gb
  have t: "lookup (fdtab (snd (grow_body C c objv w))) 2 = Some (files 2) \<and>
    lookup (fdtab (snd (grow_body C c objv w))) 1 = Some (files 1) \<and>
    lookup (fdtab (snd (grow_body C c objv w))) 0 = Some (files 0)"
    by simp
  from es pq have "\<exists>pre f0 f1 f2 post.
            es = pre @ [EvRecvmsg c, EvRecvmsg c, EvRecvmsg c, EvDup2 f0 0 True,
                        EvDup2 f1 1 True, EvDup2 f2 2 True, EvRun objc ov argc argv] @ post \<and>
            (\<forall>e\<in>set pre. \<not> fd_event e)"
    by blast
  with m' t show ?thesis
    by simp
qed

theorem stdio_installed_before_run_witness:
  "EvRun 0 [] 2 [''unit.so'', ''a'']
     \<in> set (trace (snd (grow_body CA 4 [] (deliver filesA (request KA argvA) wA)))) \<and>
   lookup (fdtab (snd (grow_body CA 4 [] (deliver filesA (request KA argvA) wA)))) 2 = Some 22 \<and>
   lookup (fdtab (snd (grow_body CA 4 [] (deliver filesA (request KA argvA) wA)))) 1 = Some 21 \<and>
   lookup (fdtab (snd (grow_body CA 4 [] (deliver filesA (request KA argvA) wA)))) 0 = Some 20"
proof -
  let ?w = "deliver filesA (request KA argvA) wA"
  let ?es = "[EvRead 4, EvWrite 4 4242 True, EvRead 4, EvRead 4, EvRead 4, EvEnviron [''A=1''],
       EvRead 4, EvRead 4, EvChdir ''/'', EvRead 4, EvRead 4, EvRead 4, EvRead 4, EvRead 4,
       EvDlopen (Some ''unit.so''), EvDlsym, EvRecvmsg 4, EvRecvmsg 4, EvRecvmsg 4,
       EvDup2 7 0 True, EvDup2 6 1 True, EvDup2 5 2 True, EvRun 0 [] 2 [''unit.so'', ''a''],
       EvDlclose, EvWrite 4 7 True]"
  have t: "trace (snd (grow_body CA 4 [] ?w)) = trace ?w @ ?es"
    by code_simp
  have m: "msgs ?w = wire_msgs filesA (request KA argvA)"
    by (simp add: deliver_def)
  have s: "lookup (fdtab ?w) 0 \<noteq> None" "lookup (fdtab ?w) 1 \<noteq> None" "lookup (fdtab ?w) 2 \<noteq> None"
    by (simp_all add: deliver_def wA_def lookup_def)
  have r: "EvRun 0 [] 2 [''unit.so'', ''a''] \<in> set ?es"
    by simp
  have "trace ?w = []"
    by (simp add: deliver_def wA_def)
  with stdio_installed_before_run[OF m s t r] t r show ?thesis
    by (simp add: filesA_def)
qed

text \<open>Claim C9, as stated, fails: the child never closes a descriptor it received. Here
  the three arrive as 5, 6 and 7; they are duplicated onto 2, 1 and 0, the entry point is
  called, and 5, 6 and 7 are open as before.\<close>

theorem carriers_closed_counterexample:
  "(case grow_body CA 4 [] (deliver filesA (request KA argvA) wA) of (r, w') \<Rightarrow>
      r = Ok 7 \<and>
      trace w' =
        [EvRead 4, EvWrite 4 4242 True, EvRead 4, EvRead 4, EvRead 4, EvEnviron [''A=1''],
         EvRead 4, EvRead 4, EvChdir ''/'', EvRead 4, EvRead 4, EvRead 4, EvRead 4, EvRead 4,
         EvDlopen (Some ''unit.so''), EvDlsym, EvRecvmsg 4, EvRecvmsg 4, EvRecvmsg 4,
         EvDup2 7 0 True, EvDup2 6 1 True, EvDup2 5 2 True, EvRun 0 [] 2 [''unit.so'', ''a''],
         EvDlclose, EvWrite 4 7 True] \<and>
      lookup (fdtab w') 5 = Some 22 \<and> lookup (fdtab w') 6 = Some 21 \<and>
      lookup (fdtab w') 7 = Some 20)"
  by code_simp

text \<open>Claim C9, amended. When the entry point is called, nothing has been closed: the
  events before the call hold no close, and each of the three descriptors that were
  duplicated onto the slots 0 to 2 is still open at the call.\<close>

theorem carriers_stay_open:
  assumes tr: "trace (snd (grow_body C c objv w)) = trace w @ es"
    and e: "EvRun objc ov argc argv \<in> set es"
  shows "(\<forall>k. EvClose k \<notin> set es) \<and>
         (\<exists>pre f0 f1 f2 post.
            es = pre @ [EvDup2 f0 0 True, EvDup2 f1 1 True, EvDup2 f2 2 True,
                        EvRun objc ov argc argv] @ post \<and>
            lookup (fdtab (snd (grow_body C c objv w))) f0 \<noteq> None \<and>
            lookup (fdtab (snd (grow_body C c objv w))) f1 \<noteq> None \<and>
            lookup (fdtab (snd (grow_body C c objv w))) f2 \<noteq> None)"
proof -
  obtain r w' where gb: "grow_body C c objv w = (r, w')" by (metis surj_pair)
  have "evolves (\<lambda>e. \<not> ending e) w (snd (grow_body C c objv w))"
    by (rule evolves_grow_body)
  with tr have "\<forall>e\<in>set es. \<not> ending e"
    by (auto simp: evolves_def)
  then have 1: "\<forall>k. EvClose k \<notin> set es"
    by auto
  from grow_body_until_call[OF gb _ e] tr gb obtain w3 fds w4 w5 pre post where
    df: "dup_fds fds w4 = (Ok (), w5)" and f5: "fdtab w' = fdtab w5"
    and es: "es = pre @ [EvRecvmsg c, EvRecvmsg c, EvRecvmsg c, EvDup2 (fst fds) 0 True,
                       EvDup2 (fst (snd fds)) 1 True, EvDup2 (snd (snd fds)) 2 True,
                       EvRun objc ov argc argv] @ post"
    by auto
  obtain f0 f1 f2 where fds: "fds = (f0, f1, f2)" by (cases fds) auto
  from dup_fds_open[OF df[unfolded fds]] f5 gb
  have 2: "lookup (fdtab (snd (grow_body C c objv w))) f0 \<noteq> None \<and>
        lookup (fdtab (snd (grow_body C c objv w))) f1 \<noteq> None \<and>
        lookup (fdtab (snd (grow_body C c objv w))) f2 \<noteq> None"
    by simp
  from es fds have "es = (pre @ [EvRecvmsg c, EvRecvmsg c, EvRecvmsg c]) @
      [EvDup2 f0 0 True, EvDup2 f1 1 True, EvDup2 f2 2 True, EvRun objc ov argc argv] @ post"
    by simp
  with 1 2 show ?thesis
    by blast
qed

theorem carriers_stay_open_witness:
  "EvRun 0 [] 2 [''unit.so'', ''a'']
     \<in> set (trace (snd (grow_body CA 4 [] (deliver filesA (request KA argvA) wA)))) \<and>
   EvClose 7 \<notin> set (trace (snd (grow_body CA 4 [] (deliver filesA (request KA argvA) wA))))"
proof -
  let ?w = "deliver filesA (request KA argvA) wA"
  let ?es = "[EvRead 4, EvWrite 4 4242 True, EvRead 4, EvRead 4, EvRead 4, EvEnviron [''A=1''],
       EvRead 4, EvRead 4, EvChdir ''/'', EvRead 4, EvRead 4, EvRead 4, EvRead 4, EvRead 4,
       EvDlopen (Some ''unit.so''), EvDlsym, EvRecvmsg 4, EvRecvmsg 4, EvRecvmsg 4,
       EvDup2 7 0 True, EvDup2 6 1 True, EvDup2 5 2 True, EvRun 0 [] 2 [''unit.so'', ''a''],
       EvDlclose, EvWrite 4 7 True]"
  have t: "trace (snd (grow_body CA 4 [] ?w)) = trace ?w @ ?es"
    by code_simp
  have r: "EvRun 0 [] 2 [''unit.so'', ''a''] \<in> set ?es"
    by simp
  have "trace ?w = []"
    by (simp add: deliver_def wA_def)
  with carriers_stay_open[OF t r] t r show ?thesis
    by simp
qed

subsection \<open>Runs in which no call failed\<close>

lemma clean_refl: "clean w w"
  by (simp add: clean_def)

lemma clean_trans:
  assumes "clean w w1" and "clean w1 w2"
  shows "clean w w2"
proof -
  from assms obtain ns ns' ss ss' ms ms' es es' where
    "nums w = ns @ nums w1" "nums w1 = ns' @ nums w2" "NErr \<notin> set ns" "NErr \<notin> set ns'"
    "strs w = ss @ strs w1" "strs w1 = ss' @ strs w2" "SErr \<notin> set ss" "SErr \<notin> set ss'"
    "msgs w = ms @ msgs w1" "msgs w1 = ms' @ msgs w2" "MErr \<notin> set ms" "MErr \<notin> set ms'"
    "trace w1 = trace w @ es" "trace w2 = trace w1 @ es'"
    "\<forall>a b. EvDup2 a b False \<notin> set es" "\<forall>a b. EvDup2 a b False \<notin> set es'"
    unfolding clean_def by blast
  then have "nums w = (ns @ ns') @ nums w2 \<and> NErr \<notin> set (ns @ ns')"
    and "strs w = (ss @ ss') @ strs w2 \<and> SErr \<notin> set (ss @ ss')"
    and "msgs w = (ms @ ms') @ msgs w2 \<and> MErr \<notin> set (ms @ ms')"
    and "trace w2 = trace w @ (es @ es') \<and> (\<forall>a b. EvDup2 a b False \<notin> set (es @ es'))"
    by simp_all
  then show ?thesis
    unfolding clean_def by blast
qed

lemma clean_emit:
  assumes "\<And>a b. e \<noteq> EvDup2 a b False"
  shows "clean w (emit e w)"
proof -
  from assms have "\<forall>a b. EvDup2 a b False \<notin> set [e]"
    by (metis empty_iff empty_set set_ConsD)
  then show ?thesis
    by (simp add: clean_def emit_def)
qed

lemma cleanly_ret: "cleanly w (r, w)"
  by (simp add: cleanly_def clean_refl)

lemma cleanly_bnd:
  assumes "cleanly w m" and "\<And>x w1. cleanly w1 (f x w1)"
  shows "cleanly w (bnd m f)"
proof (cases m)
  case (Pair r w1)
  show ?thesis
  proof (cases r)
    case (Ok x)
    with Pair assms(1) have "clean w w1" by (simp add: cleanly_def)
    with Pair Ok assms(2)[of w1 x] show ?thesis
      by (auto simp: cleanly_def bnd_def intro: clean_trans)
  qed (use Pair in \<open>simp_all add: cleanly_def bnd_def\<close>)
qed

lemma cleanly_if:
  "(b \<Longrightarrow> cleanly w x) \<Longrightarrow> (\<not> b \<Longrightarrow> cleanly w y) \<Longrightarrow> cleanly w (if b then x else y)"
  by simp

lemma cleanly_prod_app:
  "(\<And>a b. cleanly w (f a b w')) \<Longrightarrow> cleanly w ((case p of (a, b) \<Rightarrow> f a b) w')"
  by (cases p) simp

lemma cleanly_after_emit:
  assumes "\<And>a b. e \<noteq> EvDup2 a b False" and "cleanly (emit e w) m"
  shows "cleanly w m"
  using assms clean_trans[OF clean_emit[of e w]] by (auto simp: cleanly_def)

lemma cleanly_recvNum: "cleanly w (recvNum c w)"
  by (auto simp: cleanly_def clean_def recvNum_def emit_def split: list.splits num_rd.splits)

lemma cleanly_recvStr: "cleanly w (recvStr c w)"
  unfolding recvStr_def
proof (intro cleanly_bnd cleanly_recvNum)
  fix x w1
  show "cleanly w1 (if x = INT_MAX then (Undef, w1)
        else case strs w1 of [] \<Rightarrow> (Fail, emit (EvRead c) w1)
             | SErr # ss \<Rightarrow> (Fail, emit (EvRead c) (w1\<lparr>strs := ss\<rparr>))
             | SRd k s # ss \<Rightarrow> (if x < 0 then Undef else Ok s, emit (EvRead c) (w1\<lparr>strs := ss\<rparr>)))"
    by (auto simp: cleanly_def clean_def emit_def split: list.splits str_rd.splits if_splits)
qed

lemma cleanly_recvStrs: "cleanly w (recvStrs n c w)"
proof (induction n arbitrary: w)
  case 0
  show ?case by (simp add: cleanly_ret)
next
  case (Suc n)
  show ?case
    unfolding recvStrs.simps
    by (intro cleanly_bnd cleanly_recvStr Suc cleanly_ret)
qed

lemma cleanly_recvNum_emit:
  "(\<And>a b. e \<noteq> EvDup2 a b False) \<Longrightarrow> cleanly w (recvNum c (emit e w))"
  by (rule cleanly_after_emit[of e]) (simp_all add: cleanly_recvNum)

lemma cleanly_recvStr_emit:
  "(\<And>a b. e \<noteq> EvDup2 a b False) \<Longrightarrow> cleanly w (recvStr c (emit e w))"
  by (rule cleanly_after_emit[of e]) (simp_all add: cleanly_recvStr)

lemma cleanly_write_step:
  "cleanly w (case sys_write c v w of (ok, w) \<Rightarrow> (if ok then Ok x else Fail, w))"
  by (auto simp: cleanly_def clean_def sys_write_def emit_def split: list.splits if_splits)

lemmas cleanly_steps = cleanly_bnd cleanly_if cleanly_ret cleanly_prod_app cleanly_recvNum
  cleanly_recvStr cleanly_recvStrs cleanly_recvNum_emit cleanly_recvStr_emit cleanly_write_step

lemma cleanly_handshake: "cleanly w (handshake C c w)"
  unfolding handshake_def by (intro cleanly_steps)

lemma cleanly_recv_request: "cleanly w (recv_request c w)"
  unfolding recv_request_def by (intro cleanly_steps) simp_all

lemma cleanly_load_unit: "cleanly w (load_unit C p w)"
  by (auto simp: cleanly_def clean_def load_unit_def emit_def split: option.splits)

lemma clean_read_fd:
  assumes "read_fd c r w = ((n, r'), w')" and "n \<noteq> -1"
  shows "clean w w'"
  using assms
  by (auto simp: clean_def read_fd_def emit_def split: list.splits msg_rd.splits ctl.splits)

lemma cleanly_recv_fds: "cleanly w (recv_fds c fds w)"
proof -
  obtain f0 f1 f2 where fds: "fds = (f0, f1, f2)" by (cases fds) auto
  obtain n2 g2 w2 where a: "read_fd c f2 w = ((n2, g2), w2)" by (metis surj_pair)
  obtain n1 g1 w1 where b: "read_fd c f1 w2 = ((n1, g1), w1)" by (metis surj_pair)
  obtain n0 g0 w0 where c: "read_fd c f0 w1 = ((n0, g0), w0)" by (metis surj_pair)
  show ?thesis
    using clean_trans[OF clean_trans[OF clean_read_fd[OF a] clean_read_fd[OF b]] clean_read_fd[OF c]]
    by (auto simp: cleanly_def recv_fds_def fds a b c split: if_splits)
qed

lemma clean_sys_dup2:
  assumes "sys_dup2 a b w = (True, w')"
  shows "clean w w'"
  using assms by (auto simp: clean_def sys_dup2_def emit_def split: option.splits)

lemma cleanly_dup_fds: "cleanly w (dup_fds fds w)"
proof -
  obtain f0 f1 f2 where fds: "fds = (f0, f1, f2)" by (cases fds) auto
  show ?thesis
    unfolding cleanly_def fds
  proof (intro allI impI)
    fix x w'
    assume "dup_fds (f0, f1, f2) w = (Ok x, w')"
    then have "dup_fds (f0, f1, f2) w = (Ok (), w')" by simp
    from dup_fds_ok[OF this] obtain w1 w2 where
      "sys_dup2 f0 0 w = (True, w1)" "sys_dup2 f1 1 w1 = (True, w2)" "sys_dup2 f2 2 w2 = (True, w')"
      by blast
    then show "clean w w'"
      by (blast intro: clean_trans clean_sys_dup2)
  qed
qed

lemma cleanly_receive: "cleanly w (receive C c w)"
  unfolding receive_def
  by (intro cleanly_steps cleanly_recv_request cleanly_load_unit cleanly_recv_fds cleanly_dup_fds)

lemma cleanly_run_unit: "cleanly w (run_unit C c objv run argc argv w)"
  by (auto simp: cleanly_def clean_def run_unit_def Let_def sys_write_def emit_def
        split: list.splits if_splits)

lemma cleanly_grow_body: "cleanly w (grow_body C c objv w)"
  unfolding grow_body_def
  by (intro cleanly_steps cleanly_handshake cleanly_receive cleanly_run_unit)

lemma clean_consumed:
  assumes "clean w w'"
  shows "NErr \<notin> set (consumed (nums w) (nums w'))"
    and "SErr \<notin> set (consumed (strs w) (strs w'))"
    and "MErr \<notin> set (consumed (msgs w) (msgs w'))"
    and "\<forall>a b. EvDup2 a b False \<notin> set (drop (length (trace w)) (trace w'))"
  using assms by (auto simp: clean_def consumed_def)


subsection \<open>Reads that transfer fewer bytes than asked\<close>

text \<open>No step looks at a byte count: on the scripts without the counts every step gives
  the same result and the same events.\<close>

lemma erase_emit: "emit e (erase_counts w) = erase_counts (emit e w)"
  by (simp add: emit_def erase_counts_def)

lemma erase_sys_close: "sys_close c (erase_counts w) = erase_counts (sys_close c w)"
  by (simp add: sys_close_def emit_def erase_counts_def)

lemma sbc_ret: "same_but_counts (r, erase_counts w) (r, w)"
  by (simp add: same_but_counts_def)

lemma sbc_bnd:
  assumes "same_but_counts m' m"
    and "\<And>x w. same_but_counts (f x (erase_counts w)) (f x w)"
  shows "same_but_counts (bnd m' f) (bnd m f)"
proof (cases m)
  case (Pair r w1)
  with assms(1) have m': "m' = (r, erase_counts w1)"
    by (simp add: same_but_counts_def)
  show ?thesis
    using assms(2)[of _ w1] by (cases r) (simp_all add: Pair m' bnd_def same_but_counts_def)
qed

lemma sbc_if:
  "(b \<Longrightarrow> same_but_counts x' x) \<Longrightarrow> (\<not> b \<Longrightarrow> same_but_counts y' y) \<Longrightarrow>
   same_but_counts (if b then x' else y') (if b then x else y)"
  by simp

lemma sbc_prod_app:
  "(\<And>a b. same_but_counts (f a b w') (f a b w)) \<Longrightarrow>
   same_but_counts ((case p of (a, b) \<Rightarrow> f a b) w') ((case p of (a, b) \<Rightarrow> f a b) w)"
  by (cases p) simp

lemma sbc_sys_write: "same_but_counts (sys_write c v (erase_counts w)) (sys_write c v w)"
  by (simp add: same_but_counts_def sys_write_def emit_def erase_counts_def split: list.splits)

lemma sbc_sys_dup2: "same_but_counts (sys_dup2 a b (erase_counts w)) (sys_dup2 a b w)"
  by (simp add: same_but_counts_def sys_dup2_def emit_def erase_counts_def split: option.splits)

lemma sbc_read_fd: "same_but_counts (read_fd c r (erase_counts w)) (read_fd c r w)"
  by (simp add: same_but_counts_def read_fd_def emit_def erase_counts_def
        split: list.splits msg_rd.splits ctl.splits)

lemma sbc_recvNum: "same_but_counts (recvNum c (erase_counts w)) (recvNum c w)"
  by (simp add: same_but_counts_def recvNum_def emit_def erase_counts_def
        split: list.splits num_rd.splits)

lemma sbc_recvStr: "same_but_counts (recvStr c (erase_counts w)) (recvStr c w)"
  unfolding recvStr_def
proof (intro sbc_bnd sbc_recvNum)
  fix x w
  show "same_but_counts
     (if x = INT_MAX then (Undef, erase_counts w)
      else case strs (erase_counts w) of [] \<Rightarrow> (Fail, emit (EvRead c) (erase_counts w))
        | SErr # ss \<Rightarrow> (Fail, emit (EvRead c) (erase_counts w\<lparr>strs := ss\<rparr>))
        | SRd k s # ss \<Rightarrow>
            (if x < 0 then Undef else Ok s, emit (EvRead c) (erase_counts w\<lparr>strs := ss\<rparr>)))
     (if x = INT_MAX then (Undef, w)
      else case strs w of [] \<Rightarrow> (Fail, emit (EvRead c) w)
        | SErr # ss \<Rightarrow> (Fail, emit (EvRead c) (w\<lparr>strs := ss\<rparr>))
        | SRd k s # ss \<Rightarrow> (if x < 0 then Undef else Ok s, emit (EvRead c) (w\<lparr>strs := ss\<rparr>)))"
    by (simp add: same_but_counts_def emit_def erase_counts_def split: list.splits str_rd.splits)
qed

lemma sbc_recvStrs: "same_but_counts (recvStrs n c (erase_counts w)) (recvStrs n c w)"
proof (induction n arbitrary: w)
  case 0
  show ?case by (simp add: sbc_ret)
next
  case (Suc n)
  show ?case
    unfolding recvStrs.simps
    by (intro sbc_bnd sbc_recvStr Suc sbc_ret)
qed

lemma sbc_write_step:
  "same_but_counts (case sys_write c v (erase_counts w) of (ok, w) \<Rightarrow> (if ok then Ok x else Fail, w))
     (case sys_write c v w of (ok, w) \<Rightarrow> (if ok then Ok x else Fail, w))"
  using sbc_sys_write[of c v w]
  by (cases "sys_write c v w") (simp add: same_but_counts_def)

lemma sbc_recvNum_emit:
  "same_but_counts (recvNum c (emit e (erase_counts w))) (recvNum c (emit e w))"
  by (simp add: erase_emit sbc_recvNum)

lemma sbc_recvStr_emit:
  "same_but_counts (recvStr c (emit e (erase_counts w))) (recvStr c (emit e w))"
  by (simp add: erase_emit sbc_recvStr)

lemmas sbc_steps = sbc_bnd sbc_if sbc_ret sbc_prod_app sbc_recvNum sbc_recvStr sbc_recvStrs
  sbc_write_step sbc_recvNum_emit sbc_recvStr_emit

lemma sbc_handshake: "same_but_counts (handshake C c (erase_counts w)) (handshake C c w)"
  unfolding handshake_def by (intro sbc_steps)

lemma sbc_recv_request: "same_but_counts (recv_request c (erase_counts w)) (recv_request c w)"
  unfolding recv_request_def by (intro sbc_steps)

lemma sbc_load_unit: "same_but_counts (load_unit C p (erase_counts w)) (load_unit C p w)"
  by (simp add: same_but_counts_def load_unit_def erase_emit split: option.splits)

lemma sbc_recv_fds: "same_but_counts (recv_fds c fds (erase_counts w)) (recv_fds c fds w)"
proof -
  obtain f0 f1 f2 where fds: "fds = (f0, f1, f2)" by (cases fds) auto
  obtain n2 g2 w2 where a: "read_fd c f2 w = ((n2, g2), w2)" by (metis surj_pair)
  obtain n1 g1 w1 where b: "read_fd c f1 w2 = ((n1, g1), w1)" by (metis surj_pair)
  obtain n0 g0 w0 where c: "read_fd c f0 w1 = ((n0, g0), w0)" by (metis surj_pair)
  from sbc_read_fd[of c f2 w] a
  have a': "read_fd c f2 (erase_counts w) = ((n2, g2), erase_counts w2)"
    by (simp add: same_but_counts_def)
  from sbc_read_fd[of c f1 w2] b
  have b': "read_fd c f1 (erase_counts w2) = ((n1, g1), erase_counts w1)"
    by (simp add: same_but_counts_def)
  from sbc_read_fd[of c f0 w1] c
  have c': "read_fd c f0 (erase_counts w1) = ((n0, g0), erase_counts w0)"
    by (simp add: same_but_counts_def)
  show ?thesis
    by (simp add: same_but_counts_def recv_fds_def fds a b c a' b' c')
qed

lemma sbc_dup_fds: "same_but_counts (dup_fds fds (erase_counts w)) (dup_fds fds w)"
proof -
  obtain f0 f1 f2 where fds: "fds = (f0, f1, f2)" by (cases fds) auto
  obtain k0 w0 where a: "sys_dup2 f0 0 w = (k0, w0)" by (metis surj_pair)
  obtain k1 w1 where b: "sys_dup2 f1 1 w0 = (k1, w1)" by (metis surj_pair)
  obtain k2 w2 where c: "sys_dup2 f2 2 w1 = (k2, w2)" by (metis surj_pair)
  from sbc_sys_dup2[of f0 0 w] a
  have a': "sys_dup2 f0 0 (erase_counts w) = (k0, erase_counts w0)"
    by (simp add: same_but_counts_def)
  from sbc_sys_dup2[of f1 1 w0] b
  have b': "sys_dup2 f1 1 (erase_counts w0) = (k1, erase_counts w1)"
    by (simp add: same_but_counts_def)
  from sbc_sys_dup2[of f2 2 w1] c
  have c': "sys_dup2 f2 2 (erase_counts w1) = (k2, erase_counts w2)"
    by (simp add: same_but_counts_def)
  show ?thesis
    by (simp add: same_but_counts_def dup_fds_def fds a b c a' b' c')
qed

lemma sbc_receive: "same_but_counts (receive C c (erase_counts w)) (receive C c w)"
  unfolding receive_def
  by (intro sbc_steps sbc_recv_request sbc_load_unit sbc_recv_fds sbc_dup_fds)

lemma sbc_run_unit:
  "same_but_counts (run_unit C c objv run argc argv (erase_counts w))
     (run_unit C c objv run argc argv w)"
proof (cases "HAS_ON_EXIT C")
  case True
  then show ?thesis
    by (simp add: same_but_counts_def run_unit_def Let_def emit_def erase_counts_def)
next
  case False
  let ?w = "emit EvDlclose (emit (EvRun (int (length objv)) objv argc argv) w)"
  from sbc_write_step[where c=c and v="run (int (length objv)) objv argc argv" and w="?w"
      and x="run (int (length objv)) objv argc argv"] False show ?thesis
    by (simp add: run_unit_def Let_def erase_emit)
qed

lemma sbc_grow_body:
  "same_but_counts (grow_body C c objv (erase_counts w)) (grow_body C c objv w)"
  unfolding grow_body_def
  by (intro sbc_steps sbc_handshake sbc_receive sbc_run_unit)

lemma erase_cleanup: "cleanup (erase_counts w) = erase_counts (cleanup w)"
  by (simp add: cleanup_def Let_def erase_sys_close erase_emit erase_counts_def[of w]
        split: option.splits)
    (simp add: erase_counts_def sys_close_def emit_def)

lemma erase_reply:
  "replyWithExitStatus s (erase_counts w) = erase_counts (replyWithExitStatus s w)"
  using sbc_sys_write[of "grow_connection_fd w" s w]
  by (simp add: replyWithExitStatus_def same_but_counts_def erase_counts_def[of w])

lemma erase_run_hooks: "run_hooks hs s (erase_counts w) = erase_counts (run_hooks hs s w)"
proof (induction hs arbitrary: w)
  case Nil
  show ?case by simp
next
  case (Cons h hs)
  show ?case
    by (cases h) (simp_all add: erase_cleanup erase_reply Cons)
qed

lemma erase_c_exit: "c_exit s (erase_counts w) = erase_counts (c_exit s w)"
proof -
  have "erase_counts w\<lparr>exit_hooks := []\<rparr> = erase_counts (w\<lparr>exit_hooks := []\<rparr>)"
    and "exit_hooks (erase_counts w) = exit_hooks w"
    by (simp_all add: erase_counts_def)
  then show ?thesis
    by (simp add: c_exit_def erase_run_hooks erase_emit)
qed

lemma sbc_zygote_child:
  "same_but_counts (zygote_child C c objv (erase_counts w)) (zygote_child C c objv w)"
proof -
  let ?w0 = "w\<lparr>zygote_socket_fd := -1, zygote_socket_path := None\<rparr>"
  have e: "erase_counts w\<lparr>zygote_socket_fd := -1, zygote_socket_path := None\<rparr> = erase_counts ?w0"
    by (simp add: erase_counts_def)
  obtain r w1 where b: "grow_body C c objv ?w0 = (r, w1)" by (metis surj_pair)
  with sbc_grow_body[of C c objv ?w0]
  have b': "grow_body C c objv (erase_counts ?w0) = (r, erase_counts w1)"
    by (simp add: same_but_counts_def)
  from sbc_sys_write[of c EXIT_FAILURE w1]
  have "snd (sys_write c EXIT_FAILURE (erase_counts w1)) = erase_counts (snd (sys_write c EXIT_FAILURE w1))"
    by (simp add: same_but_counts_def)
  then show ?thesis
    by (cases r)
       (simp_all add: same_but_counts_def zygote_child_def grow_this_zygote_def e b b'
          erase_sys_close erase_c_exit)
qed

subsection \<open>The replies on the channel\<close>

lemma written_append: "written c (xs @ ys) = written c xs @ written c ys"
  by (induction c xs rule: written.induct) simp_all

lemma written_quiet: "\<forall>e\<in>set es. \<not> write_event e \<Longrightarrow> written c es = []"
  by (induction c es rule: written.induct) simp_all

lemma steady_evolves:
  assumes "steady c vs w" and "evolves A w w'" and "\<And>e. A e \<Longrightarrow> \<not> write_event e \<and> \<not> hook_event e"
  shows "steady c vs w'"
proof -
  from assms(2) obtain es where t: "trace w' = trace w @ es" and a: "\<forall>e\<in>set es. A e"
    by (auto simp: evolves_def)
  from a assms(3) have "written c es = []"
    by (intro written_quiet) blast
  moreover from assms(2,3) have "wr_ok w' = wr_ok w" "exit_hooks w' = exit_hooks w"
    "zygote_socket_fd w' = zygote_socket_fd w" "zygote_socket_path w' = zygote_socket_path w"
    by (auto simp: evolves_def)
  ultimately show ?thesis
    using assms(1) by (simp add: steady_def t written_append)
qed

lemma steady_write:
  assumes "steady c vs w"
  shows "fst (sys_write c v w)" and "steady c (vs @ [v]) (snd (sys_write c v w))"
    and "trace (snd (sys_write c v w)) = trace w @ [EvWrite c v True]"
  using assms
  by (auto simp: steady_def sys_write_def emit_def written_append split: list.splits)

lemma steady_handshake:
  assumes "steady c vs w" and "handshake C c w = (r, w1)"
  shows "(r = Ok () \<and> steady c (vs @ [getpid C]) w1 \<and>
            (\<exists>ns. nums w = NFull (ZYGOTE_VERSION C) # ns \<or> nums w = NShort (ZYGOTE_VERSION C) # ns))
         \<or> (r = Fail \<and> steady c vs w1)"
proof -
  obtain r0 w0 where n: "recvNum c w = (r0, w0)" by (metis surj_pair)
  have "evolves (\<lambda>e. \<not> write_event e \<and> \<not> hook_event e) w w0"
    using evolves_recvNum[where A="\<lambda>e. \<not> write_event e \<and> \<not> hook_event e" and c=c and w=w] n
    by simp
  with assms(1) have s0: "steady c vs w0"
    by (rule steady_evolves) simp
  show ?thesis
  proof (cases r0)
    case (Ok v)
    with n have nv: "\<exists>ns. nums w = NFull v # ns \<or> nums w = NShort v # ns"
      by (auto simp: recvNum_def split: list.splits num_rd.splits)
    show ?thesis
    proof (cases "v = ZYGOTE_VERSION C")
      case True
      with assms(2) n Ok steady_write[OF s0, of "getpid C"] nv show ?thesis
        by (auto simp: handshake_def bnd_def split: prod.splits)
    next
      case False
      with assms(2) n Ok s0 show ?thesis
        by (simp add: handshake_def bnd_def)
    qed
  next
    case Fail
    with assms(2) n s0 show ?thesis
      by (simp add: handshake_def bnd_def)
  next
    case Undef
    with n show ?thesis
      by (auto simp: recvNum_def split: list.splits num_rd.splits)
  qed
qed

lemma steady_error:
  assumes "steady c vs w"
  shows "written c (trace (c_exit EXIT_FAILURE (sys_close c (snd (sys_write c EXIT_FAILURE w)))))
           = vs @ [EXIT_FAILURE]"
    and "trace (c_exit EXIT_FAILURE (sys_close c (snd (sys_write c EXIT_FAILURE w))))
           = trace w @ [EvWrite c EXIT_FAILURE True, EvClose c, EvExit EXIT_FAILURE]"
  using assms
  by (auto simp: steady_def sys_write_def sys_close_def c_exit_def cleanup_def emit_def
        written_append split: list.splits)

lemma steady_run_unit:
  assumes "steady c vs w" and "run_unit C c objv run argc argv w = (r, w')" and "c \<noteq> -1"
  shows "r = Ok (run (int (length objv)) objv argc argv)"
    and "\<not> HAS_ON_EXIT C \<Longrightarrow> written c (trace w') = vs @ [run (int (length objv)) objv argc argv]"
    and "HAS_ON_EXIT C \<Longrightarrow> written c (trace w') = vs"
    and "HAS_ON_EXIT C \<Longrightarrow> written c (trace (c_exit s w')) = vs @ [s]"
  using assms
  by (auto simp: steady_def run_unit_def Let_def sys_write_def c_exit_def cleanup_def
        replyWithExitStatus_def emit_def written_append split: list.splits if_splits)

lemma load_unit_Ok:
  "load_unit C p w = (Ok run, w') \<Longrightarrow> \<exists>handle. dlopen C p = Some handle \<and> dlsym_run C handle = Some run"
  by (auto simp: load_unit_def split: option.splits)


text \<open>The three ways in which the child of a listening daemon ends, when its writes
  succeed and its run stays defined.\<close>

lemma child_run_cases:
  assumes h: "exit_hooks w = [Cleanup]" and wr: "list_all id (wr_ok w)" and c: "2 < c"
    and zc: "zygote_child C c objv w = (out, w')" and d: "out \<noteq> Undefined"
  shows "(\<exists>w1. handshake C c (w\<lparr>zygote_socket_fd := -1, zygote_socket_path := None\<rparr>) = (Fail, w1) \<and>
            out = Exited EXIT_FAILURE \<and>
            w' = c_exit EXIT_FAILURE (sys_close c (snd (sys_write c EXIT_FAILURE w1))) \<and>
            steady c (written c (trace w)) w1)
       \<or> (\<exists>w1 w2. handshake C c (w\<lparr>zygote_socket_fd := -1, zygote_socket_path := None\<rparr>) = (Ok (), w1) \<and>
            receive C c w1 = (Fail, w2) \<and> out = Exited EXIT_FAILURE \<and>
            w' = c_exit EXIT_FAILURE (sys_close c (snd (sys_write c EXIT_FAILURE w2))) \<and>
            steady c (written c (trace w) @ [getpid C]) w2)
       \<or> (\<exists>w1 run argc argv w2.
            handshake C c (w\<lparr>zygote_socket_fd := -1, zygote_socket_path := None\<rparr>) = (Ok (), w1) \<and>
            receive C c w1 = (Ok (run, argc, argv), w2) \<and>
            run_unit C c objv run argc argv w2 = (Ok (run (int (length objv)) objv argc argv), w') \<and>
            out = Returned (run (int (length objv)) objv argc argv) \<and>
            steady c (written c (trace w) @ [getpid C]) w2 \<and>
            (\<exists>ns. nums w = NFull (ZYGOTE_VERSION C) # ns \<or> nums w = NShort (ZYGOTE_VERSION C) # ns))"
proof -
  let ?w0 = "w\<lparr>zygote_socket_fd := -1, zygote_socket_path := None\<rparr>"
  let ?X = "written c (trace w)"
  have s0: "steady c ?X ?w0"
    using h wr by (simp add: steady_def)
  have nums0: "nums ?w0 = nums w"
    by simp
  obtain r1 w1 where hs: "handshake C c ?w0 = (r1, w1)" by (metis surj_pair)
  from steady_handshake[OF s0 hs] nums0
  consider (ok) "r1 = Ok ()" "steady c (?X @ [getpid C]) w1"
      "\<exists>ns. nums w = NFull (ZYGOTE_VERSION C) # ns \<or> nums w = NShort (ZYGOTE_VERSION C) # ns"
    | (fail) "r1 = Fail" "steady c ?X w1"
    by auto
  then show ?thesis
  proof cases
    case fail
    with zc hs have "out = Exited EXIT_FAILURE"
      "w' = c_exit EXIT_FAILURE (sys_close c (snd (sys_write c EXIT_FAILURE w1)))"
      by (simp_all add: zygote_child_def grow_this_zygote_def grow_body_def bnd_def)
    with hs fail show ?thesis
      by blast
  next
    case ok
    obtain r2 w2 where rc: "receive C c w1 = (r2, w2)" by (metis surj_pair)
    have "evolves (\<lambda>e. \<not> ending e \<and> \<not> write_event e \<and> \<not> hook_event e \<and> \<not> call_event e) w1 w2"
      using evolves_receive[where A="\<lambda>e. \<not> ending e \<and> \<not> write_event e \<and> \<not> hook_event e \<and> \<not> call_event e"
          and w=w1 and C=C and c=c] rc by simp
    with ok(2) have s2: "steady c (?X @ [getpid C]) w2"
      by (rule steady_evolves) simp
    show ?thesis
    proof (cases r2)
      case Fail
      with zc hs rc ok(1) have "out = Exited EXIT_FAILURE"
        "w' = c_exit EXIT_FAILURE (sys_close c (snd (sys_write c EXIT_FAILURE w2)))"
        by (simp_all add: zygote_child_def grow_this_zygote_def grow_body_def bnd_def)
      with hs rc ok(1) Fail s2 show ?thesis
        by blast
    next
      case Undef
      with zc hs rc ok(1) have "out = Undefined"
        by (simp add: zygote_child_def grow_this_zygote_def grow_body_def bnd_def)
      with d show ?thesis
        by simp
    next
      case (Ok x)
      obtain run argc argv where x: "x = (run, argc, argv)" by (cases x) auto
      obtain r3 w3 where ru: "run_unit C c objv run argc argv w2 = (r3, w3)" by (metis surj_pair)
      from c have c1: "c \<noteq> -1" by simp
      let ?r = "run (int (length objv)) objv argc argv"
      note R = steady_run_unit[OF s2 ru c1]
      from zc hs rc ok(1) Ok x ru R(1) have out: "out = Returned ?r" and w': "w' = w3"
        by (simp_all add: zygote_child_def grow_this_zygote_def grow_body_def bnd_def)
      from hs rc ok(1,3) Ok x ru R(1) out w' s2 show ?thesis
        by blast
    qed
  qed
qed

text \<open>Claim C1, as stated, fails in three ways. A short read is not a failure for the
  code: here two of the four bytes of the working directory arrive, and the child goes
  on, calls the unit and replies with the unit's 7. A negative environment count makes
  the child write through a pointer it may not use, with no reply after the process id.
  And when the writes fail, no integer reaches the channel.\<close>

theorem short_read_counterexample:
  "strs wS = [SRd 2 ''/t'', SRd 7 ''unit.so''] \<and>
   nums wS = [NFull 8, NFull 0, NFull 4, NFull 1, NFull 7] \<and>
   (case zygote_child CA 4 [] wS of (out, w') \<Rightarrow>
      out = Returned 7 \<and> written 4 (trace w') = [4242, 7] \<and> EvChdir ''/t'' \<in> set (trace w')) \<and>
   (case zygote_child CA 4 [] wN of (out, w') \<Rightarrow>
      out = Undefined \<and> written 4 (trace w') = [4242]) \<and>
   (case zygote_child CA 4 [] (wS\<lparr>wr_ok := [True, False, False]\<rparr>) of (out, w') \<Rightarrow>
      out = Exited EXIT_FAILURE \<and> written 4 (trace w') = [4242])"
  by code_simp

text \<open>Claim C1, amended. Take the child of a listening daemon, with a connection
  descriptor above the standard slots, whose writes all succeed and whose run stays
  defined. If it returns, the version matched, the request was decoded after the
  handshake, the unit named by the locator was loaded and its entry point resolved, the
  result is that of this entry point, called on the daemon's objects with the decoded
  count and vector, and the integers on the channel are the process id and then one
  reply: the result, written at once, or, with the exit hook, the status the process
  exits with. Otherwise it exits with the failure status, after it wrote that status,
  once, and closed the channel; the status follows the process id exactly when the
  handshake succeeded. Every failure the code tests for ends in this way: a read or a
  \<^verbatim>\<open>recvmsg\<close> that returned -1, a \<^verbatim>\<open>dup2\<close> that failed, a version other than the
  daemon's, a unit that does not load or has no entry point. A short read is no failure:
  the outcome and the events are the same on all scripts that differ only in the byte
  counts of the reads.\<close>

theorem one_response_per_request:
  assumes h: "exit_hooks w = [Cleanup]" and wr: "list_all id (wr_ok w)" and c: "2 < c"
    and zc: "zygote_child C c objv w = (out, w')" and d: "out \<noteq> Undefined"
  shows "(\<forall>r. out = Returned r \<longrightarrow>
            (\<exists>ns. nums w = NFull (ZYGOTE_VERSION C) # ns \<or> nums w = NShort (ZYGOTE_VERSION C) # ns) \<and>
            (\<exists>w1 argc code_path args w2 handle run.
               handshake C c (w\<lparr>zygote_socket_fd := -1, zygote_socket_path := None\<rparr>) = (Ok (), w1) \<and>
               recv_request c w1 = (Ok (argc, code_path, args), w2) \<and>
               dlopen C (Some code_path) = Some handle \<and> dlsym_run C handle = Some run \<and>
               r = run (int (length objv)) objv argc (code_path # args) \<and>
               EvRun (int (length objv)) objv argc (code_path # args) \<in> set (trace w')) \<and>
            (\<not> HAS_ON_EXIT C \<longrightarrow>
               written c (trace w') = written c (trace w) @ [getpid C, r]) \<and>
            (HAS_ON_EXIT C \<longrightarrow>
               written c (trace w') = written c (trace w) @ [getpid C] \<and>
               (\<forall>s. written c (trace (c_exit s w')) = written c (trace w) @ [getpid C, s]))) \<and>
         (\<forall>s. out = Exited s \<longrightarrow>
            s = EXIT_FAILURE \<and>
            (\<exists>pre. trace w' = pre @ [EvWrite c EXIT_FAILURE True, EvClose c, EvExit EXIT_FAILURE]) \<and>
            (written c (trace w') = written c (trace w) @ [EXIT_FAILURE] \<or>
             written c (trace w') = written c (trace w) @ [getpid C, EXIT_FAILURE]) \<and>
            (\<forall>w1. handshake C c (w\<lparr>zygote_socket_fd := -1, zygote_socket_path := None\<rparr>) = (Fail, w1) \<longrightarrow>
               written c (trace w') = written c (trace w) @ [EXIT_FAILURE]) \<and>
            (\<forall>w1. handshake C c (w\<lparr>zygote_socket_fd := -1, zygote_socket_path := None\<rparr>) = (Ok (), w1) \<longrightarrow>
               written c (trace w') = written c (trace w) @ [getpid C, EXIT_FAILURE])) \<and>
         (NErr \<in> set (consumed (nums w) (nums w')) \<or> SErr \<in> set (consumed (strs w) (strs w')) \<or>
          MErr \<in> set (consumed (msgs w) (msgs w')) \<or>
          (\<exists>a b. EvDup2 a b False \<in> set (drop (length (trace w)) (trace w')))
            \<longrightarrow> out = Exited EXIT_FAILURE) \<and>
         (\<forall>v ns. nums w = NFull v # ns \<or> nums w = NShort v # ns \<longrightarrow> v \<noteq> ZYGOTE_VERSION C
            \<longrightarrow> out = Exited EXIT_FAILURE) \<and>
         (\<forall>w1 argc code_path args w2.
            handshake C c (w\<lparr>zygote_socket_fd := -1, zygote_socket_path := None\<rparr>) = (Ok (), w1) \<longrightarrow>
            recv_request c w1 = (Ok (argc, code_path, args), w2) \<longrightarrow>
            dlopen C (Some code_path) = None \<or>
            (\<exists>handle. dlopen C (Some code_path) = Some handle \<and> dlsym_run C handle = None)
            \<longrightarrow> out = Exited EXIT_FAILURE) \<and>
         (\<forall>v. erase_counts v = erase_counts w \<longrightarrow>
            fst (zygote_child C c objv v) = out \<and> trace (snd (zygote_child C c objv v)) = trace w')"
proof -
  let ?w0 = "w\<lparr>zygote_socket_fd := -1, zygote_socket_path := None\<rparr>"
  let ?X = "written c (trace w)"
  have er: "\<forall>v. erase_counts v = erase_counts w \<longrightarrow>
            fst (zygote_child C c objv v) = out \<and> trace (snd (zygote_child C c objv v)) = trace w'"
  proof (intro allI impI)
    fix v
    assume e: "erase_counts v = erase_counts w"
    from sbc_zygote_child[of C c objv w] zc
    have "zygote_child C c objv (erase_counts w) = (out, erase_counts w')"
      by (simp add: same_but_counts_def)
    with sbc_zygote_child[of C c objv v] e
    have "fst (zygote_child C c objv v) = out"
      and "erase_counts (snd (zygote_child C c objv v)) = erase_counts w'"
      by (simp_all add: same_but_counts_def)
    from this(1) arg_cong[OF this(2), of trace]
    show "fst (zygote_child C c objv v) = out \<and> trace (snd (zygote_child C c objv v)) = trace w'"
      by (simp add: erase_counts_def)
  qed
  from child_run_cases[OF h wr c zc d]
  consider (hf) w1 where "handshake C c ?w0 = (Fail, w1)" "out = Exited EXIT_FAILURE"
      "w' = c_exit EXIT_FAILURE (sys_close c (snd (sys_write c EXIT_FAILURE w1)))"
      "steady c ?X w1"
    | (rf) w1 w2 where "handshake C c ?w0 = (Ok (), w1)" "out = Exited EXIT_FAILURE"
      "w' = c_exit EXIT_FAILURE (sys_close c (snd (sys_write c EXIT_FAILURE w2)))"
      "steady c (?X @ [getpid C]) w2"
    | (ret) w1 run argc argv w2 where "handshake C c ?w0 = (Ok (), w1)"
      "receive C c w1 = (Ok (run, argc, argv), w2)"
      "run_unit C c objv run argc argv w2 = (Ok (run (int (length objv)) objv argc argv), w')"
      "out = Returned (run (int (length objv)) objv argc argv)"
      "steady c (?X @ [getpid C]) w2"
      "\<exists>ns. nums w = NFull (ZYGOTE_VERSION C) # ns \<or> nums w = NShort (ZYGOTE_VERSION C) # ns"
    by blast
  then show ?thesis
  proof cases
    case hf
    with steady_error[OF hf(4)] er show ?thesis
      by simp
  next
    case rf
    with steady_error[OF rf(4)] er show ?thesis
      by simp
  next
    case ret
    let ?r = "run (int (length objv)) objv argc argv"
    from c have c1: "c \<noteq> -1" by simp
    note R = steady_run_unit[OF ret(5) ret(3) c1]
    from receive_Ok[OF ret(2)] obtain cp args v2 v3 where
      rr: "recv_request c w1 = (Ok (argc, cp, args), v2)"
      and lu: "load_unit C (Some cp) v2 = (Ok run, v3)" and av: "argv = cp # args"
      by blast
    from load_unit_Ok[OF lu] obtain handle where
      ld: "dlopen C (Some cp) = Some handle" "dlsym_run C handle = Some run"
      by blast
    from run_unit_shape[of C c objv run argc argv w2] ret(3)
    have ev: "EvRun (int (length objv)) objv argc argv \<in> set (trace w')"
      by auto
    have pinned: "\<exists>w1 argc code_path args w2 handle run.
               handshake C c ?w0 = (Ok (), w1) \<and>
               recv_request c w1 = (Ok (argc, code_path, args), w2) \<and>
               dlopen C (Some code_path) = Some handle \<and> dlsym_run C handle = Some run \<and>
               ?r = run (int (length objv)) objv argc (code_path # args) \<and>
               EvRun (int (length objv)) objv argc (code_path # args) \<in> set (trace w')"
      using ret(1) rr ld ev av by blast
    have gb: "grow_body C c objv ?w0 = (Ok ?r, w')"
      using ret(1,2,3) by (simp add: grow_body_def bnd_def)
    with cleanly_grow_body[of ?w0 C c objv] have "clean ?w0 w'"
      by (simp add: cleanly_def)
    from clean_consumed[OF this]
    have cl: "\<not> (NErr \<in> set (consumed (nums w) (nums w')) \<or> SErr \<in> set (consumed (strs w) (strs w')) \<or>
          MErr \<in> set (consumed (msgs w) (msgs w')) \<or>
          (\<exists>a b. EvDup2 a b False \<in> set (drop (length (trace w)) (trace w'))))"
      by simp
    have vm: "\<forall>v ns. nums w = NFull v # ns \<or> nums w = NShort v # ns \<longrightarrow> v \<noteq> ZYGOTE_VERSION C
            \<longrightarrow> out = Exited EXIT_FAILURE"
      using ret(6) by auto
    have lf: "\<forall>w1 argc code_path args w2.
            handshake C c ?w0 = (Ok (), w1) \<longrightarrow>
            recv_request c w1 = (Ok (argc, code_path, args), w2) \<longrightarrow>
            dlopen C (Some code_path) = None \<or>
            (\<exists>handle. dlopen C (Some code_path) = Some handle \<and> dlsym_run C handle = None)
            \<longrightarrow> out = Exited EXIT_FAILURE"
      using ret(1) rr ld by auto
    from ret(4,6) pinned R(2,3,4) cl vm lf er show ?thesis
      by simp
  qed
qed

theorem one_response_per_request_witness:
  "fst (zygote_child CA 4 [] (deliver filesA (request KA argvA) wA)) = Returned 7 \<and>
   written 4 (trace (snd (zygote_child CA 4 [] (deliver filesA (request KA argvA) wA)))) = [4242, 7]"
proof -
  let ?w = "deliver filesA (request KA argvA) wA"
  have f: "fst (zygote_child CA 4 [] ?w) = Returned 7"
    by code_simp
  then have zc: "zygote_child CA 4 [] ?w = (Returned 7, snd (zygote_child CA 4 [] ?w))"
    by (metis prod.collapse)
  have h: "exit_hooks ?w = [Cleanup]" and wr: "list_all id (wr_ok ?w)" and t: "trace ?w = []"
    by (simp_all add: deliver_def wA_def)
  have nh: "\<not> HAS_ON_EXIT CA" and pid: "getpid CA = 4242"
    by (simp_all add: CA_def)
  have c: "2 < (4::int)" and d: "Returned 7 \<noteq> Undefined"
    by simp_all
  note T = one_response_per_request[OF h wr c zc d]
  note U = T[THEN conjunct1, rule_format, OF refl]
  note V = U[THEN conjunct2, THEN conjunct2, THEN conjunct1, rule_format, OF nh]
  from V pid t f show ?thesis
    by simp
qed

end
